theory Spec2Isabelle
  imports Main "HOL-Library.Multiset"
begin

section \<open>Data model\<close>

text \<open>
  The contact table of the identity service. A row carries the fields the services read:
  \<open>id\<close> (here \<open>contactId\<close>), \<open>email\<close>, \<open>phoneNumber\<close>, \<open>linkedId\<close>, \<open>linkPrecedence\<close>,
  \<open>createdAt\<close> and \<open>deletedAt\<close>. A nullable column is an \<open>option\<close>; timestamps are
  natural numbers (milliseconds). The column \<open>updatedAt\<close> is never read by the services and
  is left out.
\<close>

datatype LinkPrecedence = PRIMARY | SECONDARY

record Contact =
  contactId :: nat
  email :: "string option"
  phoneNumber :: "string option"
  linkedId :: "nat option"
  linkPrecedence :: LinkPrecedence
  createdAt :: nat
  deletedAt :: "nat option"

text \<open>
  A field of the request body is absent (\<open>undefined\<close>), \<open>null\<close> or a string. The
  difference matters: \<open>===\<close> tells \<open>undefined\<close> from the \<open>null\<close> of a stored column.
\<close>

datatype JsField = Undefined | Null | Str string

record IdentifyRequest =
  req_email :: JsField
  req_phoneNumber :: JsField

record CreateContactInput =
  ci_phoneNumber :: "string option"
  ci_email :: "string option"
  ci_linkedId :: "nat option"
  ci_linkPrecedence :: LinkPrecedence

text \<open>
  In an update, a field left out (\<open>undefined\<close>, here \<open>None\<close>) keeps the column;
  \<open>Some v\<close> writes \<open>v\<close>, where \<open>v\<close> may be \<open>null\<close>.
\<close>

record UpdateContactInput =
  upd_phoneNumber :: "string option option"
  upd_email :: "string option option"
  upd_linkedId :: "nat option option"
  upd_linkPrecedence :: "LinkPrecedence option"

record ConsolidatedContact =
  primaryContactId :: nat
  emails :: "string list"
  phoneNumbers :: "string list"
  secondaryContactIds :: "nat list"

record ContactSearchResult =
  contacts :: "Contact list"
  primaryContact :: "Contact option"
  secondaryContacts :: "Contact list"

text \<open>
  Modelled from the spec: the persistence engine behind \<open>ContactRepository\<close> (the Prisma
  client and its schema are not part of the sources). The table is the list of its rows in
  insertion order; \<open>create\<close> gives the next id of an increasing sequence and stamps
  \<open>createdAt\<close> with the current time, which the caller of the model supplies; a query
  ordered by \<open>createdAt\<close> is a stable sort of the matching rows. The engine is taken to be
  available: the only failing operation is an update of an id that has no row.
\<close>

record Store =
  rows :: "Contact list"
  nextId :: nat

type_synonym 'a DatabaseResult = "string + 'a"

section \<open>JavaScript values\<close>

definition truthy :: "string option \<Rightarrow> bool" where
  "truthy v = (case v of None \<Rightarrow> False | Some s \<Rightarrow> s \<noteq> [])"

text \<open>\<open>x || null\<close> on a request field: every falsy value becomes \<open>null\<close>.\<close>

definition orNull :: "JsField \<Rightarrow> string option" where
  "orNull v = (case v of Undefined \<Rightarrow> None | Null \<Rightarrow> None
     | Str s \<Rightarrow> (if s = [] then None else Some s))"

text \<open>\<open>column === field\<close> between a stored column and a raw request field.\<close>

definition strictEq :: "string option \<Rightarrow> JsField \<Rightarrow> bool" where
  "strictEq c v = (case v of Undefined \<Rightarrow> False | Null \<Rightarrow> c = None | Str s \<Rightarrow> c = Some s)"

text \<open>
  A JavaScript \<open>Set\<close> of strings keeps insertion order; \<open>add\<close> of a member changes nothing.
\<close>

definition setAdd :: "string \<Rightarrow> string list \<Rightarrow> string list" where
  "setAdd v xs = (if v \<in> set xs then xs else xs @ [v])"

definition addIfTruthy :: "string option \<Rightarrow> string list \<Rightarrow> string list" where
  "addIfTruthy v xs = (case v of None \<Rightarrow> xs | Some s \<Rightarrow> (if s = [] then xs else setAdd s xs))"

text \<open>
  \<open>xs.reduce((oldest, current) => oldest.createdAt < current.createdAt ? oldest : current)\<close>
  on a non-empty array, started at its first element.
\<close>

definition pickOldest :: "Contact \<Rightarrow> Contact \<Rightarrow> Contact" where
  "pickOldest oldest current = (if createdAt oldest < createdAt current then oldest else current)"

definition reduceOldest :: "Contact list \<Rightarrow> Contact option" where
  "reduceOldest xs = (case xs of [] \<Rightarrow> None | x # rest \<Rightarrow> Some (foldl pickOldest x rest))"

section \<open>ContactRepository\<close>

definition isPrimary :: "Contact \<Rightarrow> bool" where
  "isPrimary c = (linkPrecedence c = PRIMARY)"

definition isSecondary :: "Contact \<Rightarrow> bool" where
  "isSecondary c = (linkPrecedence c = SECONDARY)"

definition createContact :: "nat \<Rightarrow> CreateContactInput \<Rightarrow> Store \<Rightarrow> Contact \<times> Store" where
  "createContact now d s =
     (let c = \<lparr>contactId = nextId s, email = ci_email d, phoneNumber = ci_phoneNumber d,
                linkedId = ci_linkedId d, linkPrecedence = ci_linkPrecedence d,
                createdAt = now, deletedAt = None\<rparr>
      in (c, \<lparr>rows = rows s @ [c], nextId = Suc (nextId s)\<rparr>))"

definition findContactsByEmailOrPhone :: "string option \<Rightarrow> string option \<Rightarrow> Store \<Rightarrow> Contact list" where
  "findContactsByEmailOrPhone e p s =
     (if \<not> truthy e \<and> \<not> truthy p then []
      else sort_key createdAt
             (filter (\<lambda>c. ((truthy e \<and> email c = e) \<or> (truthy p \<and> phoneNumber c = p))
                          \<and> deletedAt c = None) (rows s)))"

text \<open>
  \<open>orderBy: [{linkPrecedence: 'asc'}, {createdAt: 'asc'}]\<close>: primaries before secondaries,
  each by creation time.
\<close>

definition precedenceRank :: "Contact \<Rightarrow> nat" where
  "precedenceRank c = (case linkPrecedence c of PRIMARY \<Rightarrow> 0 | SECONDARY \<Rightarrow> 1)"

definition orderByPrecedenceCreatedAt :: "Contact list \<Rightarrow> Contact list" where
  "orderByPrecedenceCreatedAt xs = sort_key precedenceRank (sort_key createdAt xs)"

definition getAllLinkedContacts :: "nat \<Rightarrow> Store \<Rightarrow> Contact list" where
  "getAllLinkedContacts i s =
     (case find (\<lambda>c. contactId c = i \<and> deletedAt c = None) (rows s) of
        None \<Rightarrow> []
      | Some contact \<Rightarrow>
          (case (if linkPrecedence contact = PRIMARY then Some (contactId contact)
                 else linkedId contact) of
             None \<Rightarrow> [contact]
           | Some p \<Rightarrow>
               (if p = 0 then [contact]
                else orderByPrecedenceCreatedAt
                       (filter (\<lambda>c. (contactId c = p \<or> linkedId c = Some p) \<and> deletedAt c = None)
                          (rows s)))))"

definition applyUpdate :: "UpdateContactInput \<Rightarrow> Contact \<Rightarrow> Contact" where
  "applyUpdate u c =
     c\<lparr>linkedId := (case upd_linkedId u of None \<Rightarrow> linkedId c | Some v \<Rightarrow> v),
       linkPrecedence := (case upd_linkPrecedence u of None \<Rightarrow> linkPrecedence c | Some v \<Rightarrow> v),
       phoneNumber := (case upd_phoneNumber u of None \<Rightarrow> phoneNumber c | Some v \<Rightarrow> v),
       email := (case upd_email u of None \<Rightarrow> email c | Some v \<Rightarrow> v)\<rparr>"

definition updateContactLinkage ::
  "nat \<Rightarrow> UpdateContactInput \<Rightarrow> Store \<Rightarrow> Contact DatabaseResult \<times> Store" where
  "updateContactLinkage i u s =
     (case find (\<lambda>c. contactId c = i) (rows s) of
        None \<Rightarrow> (Inl ''Record to update not found'', s)
      | Some c \<Rightarrow>
          (Inr (applyUpdate u c),
           s\<lparr>rows := map (\<lambda>r. if contactId r = i then applyUpdate u r else r) (rows s)\<rparr>))"

section \<open>ContactService\<close>

text \<open>\<open>x || null\<close> on a value that is already a string or \<open>null\<close>.\<close>

definition orNullOpt :: "string option \<Rightarrow> string option" where
  "orNullOpt v = (if truthy v then v else None)"

definition createPrimaryContact :: "nat \<Rightarrow> string option \<Rightarrow> string option \<Rightarrow> Store \<Rightarrow> Contact \<times> Store" where
  "createPrimaryContact now e p s =
     createContact now \<lparr>ci_phoneNumber = p, ci_email = e, ci_linkedId = None,
                        ci_linkPrecedence = PRIMARY\<rparr> s"

definition createSecondaryContact ::
  "nat \<Rightarrow> nat \<Rightarrow> string option \<Rightarrow> string option \<Rightarrow> Store \<Rightarrow> Contact \<times> Store" where
  "createSecondaryContact now pid e p s =
     createContact now \<lparr>ci_phoneNumber = p, ci_email = e, ci_linkedId = Some pid,
                        ci_linkPrecedence = SECONDARY\<rparr> s"

definition findExistingContacts :: "string option \<Rightarrow> string option \<Rightarrow> Store \<Rightarrow> ContactSearchResult" where
  "findExistingContacts e p s =
     (let cs = findContactsByEmailOrPhone e p s
      in \<lparr>contacts = cs,
          primaryContact = reduceOldest (filter isPrimary cs),
          secondaryContacts = filter isSecondary cs\<rparr>)"

definition getLinkedContactChain :: "nat \<Rightarrow> Store \<Rightarrow> Contact list" where
  "getLinkedContactChain i s = getAllLinkedContacts i s"

definition convertPrimaryToSecondary :: "nat \<Rightarrow> nat \<Rightarrow> Store \<Rightarrow> Contact DatabaseResult \<times> Store" where
  "convertPrimaryToSecondary i newPrimaryId s =
     updateContactLinkage i
       \<lparr>upd_phoneNumber = None, upd_email = None, upd_linkedId = Some (Some newPrimaryId),
        upd_linkPrecedence = Some SECONDARY\<rparr> s"

text \<open>
  The loop of \<open>mergeContactChains\<close> over the chain fetched before any write: every member
  other than the newer primary that the snapshot marks secondary is written with
  \<open>{linkedId: olderPrimaryId, linkPrecedence: LinkPrecedence.PRIMARY}\<close>.
\<close>

fun mergeLoop :: "nat \<Rightarrow> nat \<Rightarrow> Contact list \<Rightarrow> Contact list \<times> Store \<Rightarrow> Contact list \<times> Store" where
  "mergeLoop olderPrimaryId newerPrimaryId [] acc = acc"
| "mergeLoop olderPrimaryId newerPrimaryId (c # cs) (updated, s) =
     (if contactId c \<noteq> newerPrimaryId \<and> linkPrecedence c = SECONDARY then
        (case updateContactLinkage (contactId c)
                \<lparr>upd_phoneNumber = None, upd_email = None,
                 upd_linkedId = Some (Some olderPrimaryId),
                 upd_linkPrecedence = Some PRIMARY\<rparr> s of
           (Inr d, s') \<Rightarrow> mergeLoop olderPrimaryId newerPrimaryId cs (updated @ [d], s')
         | (Inl err, s') \<Rightarrow> mergeLoop olderPrimaryId newerPrimaryId cs (updated, s'))
      else mergeLoop olderPrimaryId newerPrimaryId cs (updated, s))"

text \<open>
  \<open>mergeContactChains\<close> returns the rows it has written; a write that fails is skipped.
  With the engine available the call itself always succeeds, so the model returns the list
  and the store.
\<close>

definition mergeContactChains :: "nat \<Rightarrow> nat \<Rightarrow> Store \<Rightarrow> Contact list \<times> Store" where
  "mergeContactChains olderPrimaryId newerPrimaryId s =
     (let newerChainContacts = getAllLinkedContacts newerPrimaryId s;
          start = (case find (\<lambda>c. contactId c = newerPrimaryId) newerChainContacts of
                     None \<Rightarrow> ([], s)
                   | Some newerPrimary \<Rightarrow>
                       (case convertPrimaryToSecondary newerPrimaryId olderPrimaryId s of
                          (Inr d, s') \<Rightarrow> ([d], s')
                        | (Inl err, s') \<Rightarrow> ([], s')))
      in mergeLoop olderPrimaryId newerPrimaryId newerChainContacts start)"

definition collectValues :: "(Contact \<Rightarrow> string option) \<Rightarrow> Contact \<Rightarrow> Contact list \<Rightarrow> string list" where
  "collectValues f p secs = foldl (\<lambda>acc c. addIfTruthy (f c) acc) (addIfTruthy (f p) []) secs"

definition consolidateContactInfo :: "nat \<Rightarrow> Store \<Rightarrow> ConsolidatedContact DatabaseResult" where
  "consolidateContactInfo pid s =
     (let allContacts = getAllLinkedContacts pid s;
          secs = filter isSecondary allContacts
      in case find isPrimary allContacts of
           None \<Rightarrow> Inl ''Primary contact not found''
         | Some p \<Rightarrow>
             (let sorted = sort_key createdAt secs
              in Inr \<lparr>primaryContactId = contactId p,
                      emails = collectValues email p sorted,
                      phoneNumbers = collectValues phoneNumber p sorted,
                      secondaryContactIds = map contactId sorted\<rparr>))"

section \<open>IdentityService\<close>

definition consolidateAndReturn :: "nat \<Rightarrow> Store \<Rightarrow> ConsolidatedContact DatabaseResult" where
  "consolidateAndReturn pid s =
     (case consolidateContactInfo pid s of
        Inl err \<Rightarrow> Inl ''Failed to consolidate contact information''
      | Inr d \<Rightarrow> Inr d)"

definition isExactDuplicate :: "Contact list \<Rightarrow> JsField \<Rightarrow> JsField \<Rightarrow> bool" where
  "isExactDuplicate cs e p =
     list_ex (\<lambda>contact. strictEq (email contact) e \<and> strictEq (phoneNumber contact) p) cs"

definition hasMultiplePrimaryContacts :: "Contact list \<Rightarrow> bool" where
  "hasMultiplePrimaryContacts cs = (length (filter isPrimary cs) > 1)"

definition needsSecondaryContact :: "Contact \<Rightarrow> string option \<Rightarrow> string option \<Rightarrow> bool" where
  "needsSecondaryContact pc e p =
     (if email pc = e \<and> phoneNumber pc = p then False
      else if (email pc = e \<and> phoneNumber pc \<noteq> p \<and> p \<noteq> None)
              \<or> (phoneNumber pc = p \<and> email pc \<noteq> e \<and> e \<noteq> None) then True
      else if email pc = None \<and> e \<noteq> None \<and> phoneNumber pc = p then True
      else if phoneNumber pc = None \<and> p \<noteq> None \<and> email pc = e then True
      else False)"

definition checkIfNeedsNewSecondary :: "nat \<Rightarrow> string option \<Rightarrow> string option \<Rightarrow> Store \<Rightarrow> bool" where
  "checkIfNeedsNewSecondary pid e p s =
     (let allContacts = getLinkedContactChain pid s;
          exactMatch = list_ex (\<lambda>contact. email contact = e \<and> phoneNumber contact = p) allContacts
      in if exactMatch then False
         else
           (let hasNewEmail = (truthy e \<and> \<not> list_ex (\<lambda>contact. email contact = e) allContacts);
                hasNewPhone = (truthy p \<and> \<not> list_ex (\<lambda>contact. phoneNumber contact = p) allContacts);
                hasMatchingEmail = (truthy e \<and> list_ex (\<lambda>contact. email contact = e) allContacts);
                hasMatchingPhone = (truthy p \<and> list_ex (\<lambda>contact. phoneNumber contact = p) allContacts)
            in (hasNewEmail \<or> hasNewPhone) \<and> (hasMatchingEmail \<or> hasMatchingPhone)))"

definition handleNoExistingContacts ::
  "nat \<Rightarrow> string option \<Rightarrow> string option \<Rightarrow> Store \<Rightarrow> ConsolidatedContact DatabaseResult \<times> Store" where
  "handleNoExistingContacts now e p s =
     (case createPrimaryContact now (orNullOpt e) (orNullOpt p) s of
        (pc, s') \<Rightarrow>
          (Inr \<lparr>primaryContactId = contactId pc,
                emails = (case email pc of None \<Rightarrow> [] | Some v \<Rightarrow> (if v = [] then [] else [v])),
                phoneNumbers =
                  (case phoneNumber pc of None \<Rightarrow> [] | Some v \<Rightarrow> (if v = [] then [] else [v])),
                secondaryContactIds = []\<rparr>, s'))"

definition searchPrimary :: "ContactSearchResult \<Rightarrow> Contact option" where
  "searchPrimary sr =
     (case primaryContact sr of Some pc \<Rightarrow> Some pc | None \<Rightarrow> find isPrimary (contacts sr))"

definition handleExactDuplicate ::
  "ContactSearchResult \<Rightarrow> Store \<Rightarrow> ConsolidatedContact DatabaseResult \<times> Store" where
  "handleExactDuplicate sr s =
     (case searchPrimary sr of
        None \<Rightarrow> (Inl ''No primary contact found in search results'', s)
      | Some pc \<Rightarrow> (consolidateAndReturn (contactId pc) s, s))"

text \<open>
  \<open>handleSinglePrimaryContact\<close> reads \<open>searchResult.primaryContact!\<close>. The branch that
  calls it has checked that the field is set; were it not, reading its email would throw a
  \<open>TypeError\<close>, which the \<open>catch\<close> of \<open>identifyContact\<close> turns into a failure.
\<close>

definition handleSinglePrimaryContact ::
  "nat \<Rightarrow> ContactSearchResult \<Rightarrow> string option \<Rightarrow> string option \<Rightarrow> Store
   \<Rightarrow> ConsolidatedContact DatabaseResult \<times> Store" where
  "handleSinglePrimaryContact now sr e p s =
     (case primaryContact sr of
        None \<Rightarrow> (Inl ''Cannot read properties of undefined'', s)
      | Some pc \<Rightarrow>
          (if needsSecondaryContact pc e p then
             (case createSecondaryContact now (contactId pc) (orNullOpt e) (orNullOpt p) s of
                (sc, s') \<Rightarrow> (consolidateAndReturn (contactId pc) s', s'))
           else (consolidateAndReturn (contactId pc) s, s)))"

text \<open>
  The \<open>for\<close> loop of \<open>handleMultiplePrimaryContacts\<close> over the younger primaries; the
  result of a merge is only logged.
\<close>

definition mergeAll :: "nat \<Rightarrow> Contact list \<Rightarrow> Store \<Rightarrow> Store" where
  "mergeAll olderPrimaryId newerPrimaries s =
     foldl (\<lambda>st newerPrimary. snd (mergeContactChains olderPrimaryId (contactId newerPrimary) st))
       s newerPrimaries"

definition handleMultiplePrimaryContacts ::
  "nat \<Rightarrow> Contact list \<Rightarrow> string option \<Rightarrow> string option \<Rightarrow> Store
   \<Rightarrow> ConsolidatedContact DatabaseResult \<times> Store" where
  "handleMultiplePrimaryContacts now cs e p s =
     (case sort_key createdAt (filter isPrimary cs) of
        [] \<Rightarrow> (Inl ''No primary contact found in multiple primaries scenario'', s)
      | olderPrimary # newerPrimaries \<Rightarrow>
          (let s1 = mergeAll (contactId olderPrimary) newerPrimaries s;
               s2 = (if checkIfNeedsNewSecondary (contactId olderPrimary) (orNullOpt e) (orNullOpt p) s1
                     then snd (createSecondaryContact now (contactId olderPrimary)
                                 (orNullOpt e) (orNullOpt p) s1)
                     else s1)
           in (consolidateAndReturn (contactId olderPrimary) s2, s2)))"

definition handleExistingChain ::
  "nat \<Rightarrow> ContactSearchResult \<Rightarrow> string option \<Rightarrow> string option \<Rightarrow> Store
   \<Rightarrow> ConsolidatedContact DatabaseResult \<times> Store" where
  "handleExistingChain now sr e p s =
     (case searchPrimary sr of
        None \<Rightarrow>
          (case reduceOldest (contacts sr) of
             None \<Rightarrow> handleNoExistingContacts now e p s
           | Some oldestContact \<Rightarrow>
               (case updateContactLinkage (contactId oldestContact)
                       \<lparr>upd_phoneNumber = None, upd_email = None, upd_linkedId = Some None,
                        upd_linkPrecedence = Some PRIMARY\<rparr> s of
                  (Inr d, s') \<Rightarrow> (consolidateAndReturn (contactId d) s', s')
                | (Inl err, s') \<Rightarrow> handleNoExistingContacts now e p s'))
      | Some pc \<Rightarrow>
          (let s1 = (if checkIfNeedsNewSecondary (contactId pc) e p s
                     then snd (createSecondaryContact now (contactId pc) (orNullOpt e) (orNullOpt p) s)
                     else s)
           in (consolidateAndReturn (contactId pc) s1, s1)))"

text \<open>
  \<open>identifyContact\<close> passes \<open>email || null\<close> and \<open>phoneNumber || null\<close> to the query and
  to the handlers, but the raw fields of the request to \<open>isExactDuplicate\<close>. The time
  \<open>now\<close> stamps the row the call may create; a call creates at most one.
\<close>

definition identifyContact ::
  "nat \<Rightarrow> IdentifyRequest \<Rightarrow> Store \<Rightarrow> ConsolidatedContact DatabaseResult \<times> Store" where
  "identifyContact now request s =
     (let e = req_email request; p = req_phoneNumber request;
          searchResult = findExistingContacts (orNull e) (orNull p) s
      in if contacts searchResult = [] then handleNoExistingContacts now (orNull e) (orNull p) s
         else if isExactDuplicate (contacts searchResult) e p then handleExactDuplicate searchResult s
         else if primaryContact searchResult \<noteq> None \<and> secondaryContacts searchResult = []
           then handleSinglePrimaryContact now searchResult (orNull e) (orNull p) s
         else if hasMultiplePrimaryContacts (contacts searchResult)
           then handleMultiplePrimaryContacts now (contacts searchResult) (orNull e) (orNull p) s
         else handleExistingChain now searchResult (orNull e) (orNull p) s)"

section \<open>ContactMatcher\<close>

definition hasSharedEmail :: "Contact \<Rightarrow> Contact \<Rightarrow> bool" where
  "hasSharedEmail contact1 contact2 =
     (truthy (email contact1) \<and> truthy (email contact2) \<and> email contact1 = email contact2)"

definition hasSharedPhone :: "Contact \<Rightarrow> Contact \<Rightarrow> bool" where
  "hasSharedPhone contact1 contact2 =
     (truthy (phoneNumber contact1) \<and> truthy (phoneNumber contact2)
      \<and> phoneNumber contact1 = phoneNumber contact2)"

definition shouldLink :: "Contact \<Rightarrow> Contact \<Rightarrow> bool" where
  "shouldLink contact1 contact2 = (hasSharedEmail contact1 contact2 \<or> hasSharedPhone contact1 contact2)"

text \<open>
  \<open>findLinkedContacts\<close> walks \<open>allContacts\<close> and, at every unprocessed contact that
  links to the base contact, pushes it on the group, marks its id and recurses with it as
  the new base before the walk goes on. The third argument is the part of \<open>allContacts\<close>
  the \<open>for\<close> loop has still to visit; the state is the group array and the set of
  processed ids, both shared by all the calls.
\<close>

function findLinkedContacts ::
  "Contact \<Rightarrow> Contact list \<Rightarrow> Contact list \<Rightarrow> Contact list \<times> nat set
   \<Rightarrow> Contact list \<times> nat set" where
  "findLinkedContacts baseContact allContacts [] st = st"
| "findLinkedContacts baseContact allContacts (c # rest) (grp, processed) =
     (if contactId c \<in> processed then findLinkedContacts baseContact allContacts rest (grp, processed)
      else if shouldLink baseContact c then
        findLinkedContacts baseContact allContacts rest
          (findLinkedContacts c allContacts allContacts (grp @ [c], insert (contactId c) processed))
      else findLinkedContacts baseContact allContacts rest (grp, processed))"
  by pat_completeness auto

lemma findLinkedContacts_dom_processed:
  "findLinkedContacts_dom (b, a, r, st) \<Longrightarrow> snd st \<subseteq> snd (findLinkedContacts b a r st)"
proof (induction b a r st rule: findLinkedContacts.pinduct)
  case (1 b a st)
  then show ?case by (simp add: findLinkedContacts.psimps)
next
  case (2 b a c rest grp processed)
  then show ?case
    by (auto simp: findLinkedContacts.psimps split: if_splits)
qed

termination findLinkedContacts
proof (relation "measures [\<lambda>(b, a, r, st). card (contactId ` (set a \<union> set r) - snd st),
                           \<lambda>(b, a, r, st). length r]", goal_cases)
  case 1
  then show ?case by simp
next
  case (2 b a c rest grp processed)
  have "card (contactId ` (set a \<union> set rest) - processed)
        \<le> card (contactId ` (set a \<union> set (c # rest)) - processed)"
    by (intro card_mono) auto
  then show ?case by auto
next
  case (3 b a c rest grp processed)
  have "contactId ` (set a \<union> set a) - insert (contactId c) processed
        \<subset> contactId ` (set a \<union> set (c # rest)) - processed"
    using 3 by auto
  then show ?case by (simp add: psubset_card_mono)
next
  case (4 b a c rest grp processed)
  let ?inner = "findLinkedContacts c a a (grp @ [c], insert (contactId c) processed)"
  have "insert (contactId c) processed \<subseteq> snd ?inner"
    using findLinkedContacts_dom_processed [OF 4(3)] by simp
  then have "contactId ` (set a \<union> set rest) - snd ?inner
        \<subseteq> contactId ` (set a \<union> set (c # rest)) - processed"
    by auto
  then have "card (contactId ` (set a \<union> set rest) - snd ?inner)
        \<le> card (contactId ` (set a \<union> set (c # rest)) - processed)"
    by (intro card_mono) auto
  then show ?case by (cases ?inner) auto
next
  case (5 b a c rest grp processed)
  have "card (contactId ` (set a \<union> set rest) - processed)
        \<le> card (contactId ` (set a \<union> set (c # rest)) - processed)"
    by (intro card_mono) auto
  then show ?case by auto
qed

text \<open>
  The loop of \<open>groupLinkableContacts\<close>: an unprocessed contact starts a group, the
  traversal fills it, and the group is kept only when it has more than one member.
\<close>

fun groupLoop ::
  "Contact list \<Rightarrow> Contact list \<Rightarrow> Contact list list \<times> nat set \<Rightarrow> Contact list list \<times> nat set" where
  "groupLoop allContacts [] st = st"
| "groupLoop allContacts (c # rest) (groups, processed) =
     (if contactId c \<in> processed then groupLoop allContacts rest (groups, processed)
      else
        (case findLinkedContacts c allContacts allContacts ([c], insert (contactId c) processed) of
           (grp, processed') \<Rightarrow>
             groupLoop allContacts rest
               (if length grp > 1 then groups @ [grp] else groups, processed')))"

definition groupLinkableContacts :: "Contact list \<Rightarrow> Contact list list" where
  "groupLinkableContacts cs = fst (groupLoop cs cs ([], {}))"

section \<open>Sequences of calls, the chain invariants, example rows\<close>

fun identifySeq :: "(nat \<times> IdentifyRequest) list \<Rightarrow> Store \<Rightarrow> Store" where
  "identifySeq [] s = s"
| "identifySeq ((now, request) # calls) s = identifySeq calls (snd (identifyContact now request s))"

text \<open>
  The chain invariants in the words of the specification: the chain of every active
  contact, as \<open>getAllLinkedContacts\<close> returns it, has exactly one primary, and the
  \<open>linkedId\<close> of every secondary in it is that primary's id.
\<close>

definition chainOk :: "Store \<Rightarrow> Contact \<Rightarrow> bool" where
  "chainOk s c =
     (case filter isPrimary (getAllLinkedContacts (contactId c) s) of
        [p] \<Rightarrow> list_all (\<lambda>x. linkedId x = Some (contactId p))
                 (filter isSecondary (getAllLinkedContacts (contactId c) s))
      | _ \<Rightarrow> False)"

definition chainInvariants :: "Store \<Rightarrow> bool" where
  "chainInvariants s = list_all (chainOk s) (filter (\<lambda>c. deletedAt c = None) (rows s))"

definition emptyStore :: Store where
  "emptyStore = \<lparr>rows = [], nextId = 1\<rparr>"

definition primaryRow :: "nat \<Rightarrow> string \<Rightarrow> string \<Rightarrow> nat \<Rightarrow> Contact" where
  "primaryRow i e p t =
     \<lparr>contactId = i, email = Some e, phoneNumber = Some p, linkedId = None,
      linkPrecedence = PRIMARY, createdAt = t, deletedAt = None\<rparr>"

definition secondaryRow :: "nat \<Rightarrow> string \<Rightarrow> string \<Rightarrow> nat \<Rightarrow> nat \<Rightarrow> Contact" where
  "secondaryRow i e p l t =
     \<lparr>contactId = i, email = Some e, phoneNumber = Some p, linkedId = Some l,
      linkPrecedence = SECONDARY, createdAt = t, deletedAt = None\<rparr>"

definition request :: "string \<Rightarrow> string \<Rightarrow> IdentifyRequest" where
  "request e p = \<lparr>req_email = Str e, req_phoneNumber = Str p\<rparr>"

text \<open>JavaScript's falsy request fields: absent, \<open>null\<close> or the empty string.\<close>

definition falsy :: "JsField \<Rightarrow> bool" where
  "falsy v = (case v of Undefined \<Rightarrow> True | Null \<Rightarrow> True | Str s \<Rightarrow> s = [])"

text \<open>
  The integrity the persistence engine keeps: every id and every \<open>linkedId\<close> was
  handed out by the id sequence, so it lies below the next id.
\<close>

definition storeIntegrity :: "Store \<Rightarrow> bool" where
  "storeIntegrity s =
     list_all (\<lambda>c. contactId c < nextId s
                    \<and> (case linkedId c of None \<Rightarrow> True | Some l \<Rightarrow> l < nextId s)) (rows s)"

text \<open>
  The order of the consolidated lists in the words of the specification. No value occurs
  twice; of two values, the later one is not the primary's own, and the earlier one is the
  primary's own or is carried by a secondary created no later than every secondary that
  carries the later one.
\<close>

definition orderedByIntroduction ::
  "(Contact \<Rightarrow> string option) \<Rightarrow> Contact \<Rightarrow> Contact list \<Rightarrow> string list \<Rightarrow> bool" where
  "orderedByIntroduction f p secs vs =
     (distinct vs
      \<and> (\<forall>i j. i < j \<and> j < length vs \<longrightarrow>
             f p \<noteq> Some (vs ! j)
             \<and> (f p = Some (vs ! i)
                \<or> (\<exists>ci \<in> set secs. f ci = Some (vs ! i)
                      \<and> (\<forall>cj \<in> set secs. f cj = Some (vs ! j) \<longrightarrow> createdAt ci \<le> createdAt cj)))))"

text \<open>
  A response is in order for a chain when its primary is a primary of the chain, its two
  value lists are ordered by introduction, and its secondary ids are those of all the
  secondaries of the chain, each once, by ascending creation time.
\<close>

definition orderedResponse :: "Contact list \<Rightarrow> ConsolidatedContact \<Rightarrow> bool" where
  "orderedResponse chain resp =
     (\<exists>p \<in> set chain. isPrimary p \<and> contactId p = primaryContactId resp
        \<and> orderedByIntroduction email p (filter isSecondary chain) (emails resp)
        \<and> orderedByIntroduction phoneNumber p (filter isSecondary chain) (phoneNumbers resp)
        \<and> (\<exists>secs. mset secs = mset (filter isSecondary chain) \<and> sorted (map createdAt secs)
              \<and> secondaryContactIds resp = map contactId secs))"

text \<open>
  The shared-attribute graph on a list of contacts, the connected component of a contact in
  it, and whether a contact links to a contact other than itself.
\<close>

definition linkRel :: "Contact list \<Rightarrow> (Contact \<times> Contact) set" where
  "linkRel cs = {(a, b). a \<in> set cs \<and> b \<in> set cs \<and> shouldLink a b}"

definition component :: "Contact list \<Rightarrow> Contact \<Rightarrow> Contact set" where
  "component cs a = {b. (a, b) \<in> (linkRel cs)\<^sup>*}"

definition linksToAnother :: "Contact list \<Rightarrow> Contact \<Rightarrow> bool" where
  "linksToAnother cs a = (\<exists>b \<in> set cs. b \<noteq> a \<and> shouldLink a b)"

definition exampleContacts :: "Contact list" where
  "exampleContacts = [primaryRow 1 ''a'' ''1'' 1, secondaryRow 2 ''a'' ''2'' 1 2,
                      secondaryRow 3 ''b'' ''2'' 1 3, primaryRow 4 ''c'' ''4'' 4]"

text \<open>
  A request field is present on a column when the two are equal, a field left out of the
  request counting as \<open>null\<close>.
\<close>

definition fieldPresent :: "string option \<Rightarrow> JsField \<Rightarrow> bool" where
  "fieldPresent c v = (case v of Undefined \<Rightarrow> c = None | Null \<Rightarrow> c = None | Str s \<Rightarrow> c = Some s)"

text \<open>The columns of a row that no call of the service rewrites.\<close>

definition contactData :: "Contact \<Rightarrow> nat \<times> string option \<times> string option \<times> nat \<times> nat option" where
  "contactData c = (contactId c, email c, phoneNumber c, createdAt c, deletedAt c)"

text \<open>
  Stores used as concrete inputs. \<open>mergedChainStore\<close> is reached from the empty store by
  the calls (a, 1), (b, 2), (a, 3), (a, 2); \<open>branchDStore\<close> by (a, 1), (b, 2), (b, 3).
  \<open>corruptedChainStore\<close> has a row marked primary that links to primary 2.
\<close>

definition mergedChainStore :: Store where
  "mergedChainStore =
     \<lparr>rows = [primaryRow 1 ''a'' ''1'' 1, secondaryRow 2 ''b'' ''2'' 1 2,
              secondaryRow 3 ''a'' ''3'' 1 3],
      nextId = 4\<rparr>"

definition branchDStore :: Store where
  "branchDStore =
     \<lparr>rows = [primaryRow 1 ''a'' ''1'' 1, primaryRow 2 ''b'' ''2'' 2,
              secondaryRow 3 ''b'' ''3'' 2 3],
      nextId = 4\<rparr>"

definition sharedEmailStore :: Store where
  "sharedEmailStore =
     \<lparr>rows = [primaryRow 1 ''a'' ''1'' 1, primaryRow 2 ''a'' ''2'' 2,
              secondaryRow 3 ''a'' ''3'' 1 3],
      nextId = 4\<rparr>"

definition corruptedChainStore :: Store where
  "corruptedChainStore =
     \<lparr>rows = [primaryRow 1 ''a'' ''1'' 1, primaryRow 2 ''b'' ''2'' 2,
              secondaryRow 3 ''b'' ''3'' 2 3,
              (secondaryRow 4 ''c'' ''2'' 2 4)\<lparr>linkPrecedence := PRIMARY\<rparr>],
      nextId = 5\<rparr>"

section \<open>Notions used in the proofs\<close>

text \<open>The two writes of \<open>mergeContactChains\<close>, as functions on a row.\<close>

definition repointed :: "nat \<Rightarrow> Contact \<Rightarrow> Contact" where
  "repointed older r = r\<lparr>linkedId := Some older, linkPrecedence := PRIMARY\<rparr>"

definition demoted :: "nat \<Rightarrow> Contact \<Rightarrow> Contact" where
  "demoted older r = r\<lparr>linkedId := Some older, linkPrecedence := SECONDARY\<rparr>"

text \<open>The ids the loop of \<open>mergeContactChains\<close> writes, given the chain it walks.\<close>

definition rewritten :: "nat \<Rightarrow> Contact list \<Rightarrow> nat set" where
  "rewritten newer cs =
     contactId ` {c \<in> set cs. contactId c \<noteq> newer \<and> linkPrecedence c = SECONDARY}"

text \<open>The rows the chain query selects for a primary id.\<close>

definition chainFilter :: "nat \<Rightarrow> Store \<Rightarrow> Contact list" where
  "chainFilter p s =
     filter (\<lambda>c. (contactId c = p \<or> linkedId c = Some p) \<and> deletedAt c = None) (rows s)"

text \<open>The values a \<open>Set\<close> holds after the given sequence of conditional adds.\<close>

definition addAll :: "string option list \<Rightarrow> string list" where
  "addAll ws = foldl (\<lambda>acc w. addIfTruthy w acc) [] ws"

text \<open>
  What a call of \<open>findLinkedContacts\<close> establishes: it appends contacts to the group and
  marks their ids; they are new, pairwise different, reachable from the base contact, the
  contacts of the remaining walk that link to the base are marked, and so is every contact
  that links to an appended one.
\<close>

definition dfsPost ::
  "Contact \<Rightarrow> Contact list \<Rightarrow> Contact list \<Rightarrow> Contact list \<times> nat set \<Rightarrow> Contact list \<times> nat set \<Rightarrow> bool" where
  "dfsPost base cs rest st st' =
     (\<exists>new. fst st' = fst st @ new \<and> snd st' = snd st \<union> contactId ` set new
        \<and> distinct (map contactId new) \<and> set new \<subseteq> set cs
        \<and> contactId ` set new \<inter> snd st = {}
        \<and> (\<forall>x \<in> set new. (base, x) \<in> (linkRel cs)\<^sup>+)
        \<and> (\<forall>c \<in> set rest. shouldLink base c \<longrightarrow> contactId c \<in> snd st')
        \<and> (\<forall>x \<in> set new. \<forall>y \<in> set cs. shouldLink x y \<longrightarrow> contactId y \<in> snd st'))"

text \<open>
  The invariant of the loop of \<open>groupLinkableContacts\<close>: the marked contacts are closed
  under links, the groups are pairwise disjoint lists without repetition of marked
  contacts, and they are the components of the marked contacts that link to another.
\<close>

definition loopInv :: "Contact list \<Rightarrow> Contact list list \<times> nat set \<Rightarrow> bool" where
  "loopInv cs st =
     ((\<forall>x \<in> set cs. contactId x \<in> snd st \<longrightarrow>
          (\<forall>y \<in> set cs. shouldLink x y \<longrightarrow> contactId y \<in> snd st))
      \<and> distinct (concat (fst st))
      \<and> set (concat (fst st)) \<subseteq> {x \<in> set cs. contactId x \<in> snd st}
      \<and> set ` set (fst st)
          = {component cs a | a. a \<in> set cs \<and> contactId a \<in> snd st \<and> linksToAnother cs a})"

section \<open>Requests without any field\<close>

lemma orNull_falsy: "falsy v \<Longrightarrow> orNull v = None"
  by (auto simp: falsy_def orNull_def split: JsField.splits)

text \<open>
  Claim C10. When both the email and the phone number of the request are absent (undefined,
  null or empty), the candidate query returns the empty list, the no-match branch runs and
  the call succeeds: it appends a new primary row whose email and phone number are both
  null, and answers with that row's id and empty lists. Nothing in the service rejects the
  request.
\<close>

theorem C10_absent_fields_create_null_primary:
  assumes "falsy (req_email r)" and "falsy (req_phoneNumber r)"
  shows "findContactsByEmailOrPhone (orNull (req_email r)) (orNull (req_phoneNumber r)) s = []
     \<and> identifyContact now r s =
       (Inr \<lparr>primaryContactId = nextId s, emails = [], phoneNumbers = [],
              secondaryContactIds = []\<rparr>,
        \<lparr>rows = rows s @ [\<lparr>contactId = nextId s, email = None, phoneNumber = None,
                            linkedId = None, linkPrecedence = PRIMARY, createdAt = now,
                            deletedAt = None\<rparr>],
         nextId = Suc (nextId s)\<rparr>)"
proof -
  have e: "orNull (req_email r) = None"
    using assms(1) by (rule orNull_falsy)
  have p: "orNull (req_phoneNumber r) = None"
    using assms(2) by (rule orNull_falsy)
  show ?thesis
    by (simp add: e p identifyContact_def findExistingContacts_def
        findContactsByEmailOrPhone_def handleNoExistingContacts_def createPrimaryContact_def
        createContact_def orNullOpt_def truthy_def Let_def)
qed

theorem C10_absent_fields_witness:
  "falsy Undefined \<and> falsy Null
   \<and> identifyContact 7 \<lparr>req_email = Undefined, req_phoneNumber = Null\<rparr> emptyStore =
       (Inr \<lparr>primaryContactId = 1, emails = [], phoneNumbers = [], secondaryContactIds = []\<rparr>,
        \<lparr>rows = [\<lparr>contactId = 1, email = None, phoneNumber = None, linkedId = None,
                   linkPrecedence = PRIMARY, createdAt = 7, deletedAt = None\<rparr>],
         nextId = 2\<rparr>)"
  using C10_absent_fields_create_null_primary
          [of "\<lparr>req_email = Undefined, req_phoneNumber = Null\<rparr>" emptyStore 7]
  by (simp add: falsy_def emptyStore_def)

section \<open>Two primaries and no secondary among the candidates\<close>

text \<open>
  Claim C1, evaluated on the code. The store holds the primaries 1 (email a, phone 1,
  created first) and 2 (email b, phone 2) and nothing else; the request is (a, 2). Both
  primaries are candidates and none is a secondary, so the test of the single-primary
  branch (an oldest primary exists and no candidate is secondary) holds before the
  multiple-primaries test is reached: a secondary (a, 2) is created under 1, primary 2 stays
  a primary, and the answer lists only the email a.
\<close>

theorem C1_cross_primary_request_takes_single_primary_branch:
  "identifyContact 3 (request ''a'' ''2'')
     \<lparr>rows = [primaryRow 1 ''a'' ''1'' 1, primaryRow 2 ''b'' ''2'' 2], nextId = 3\<rparr>
   = (Inr \<lparr>primaryContactId = 1, emails = [''a''], phoneNumbers = [''1'', ''2''],
           secondaryContactIds = [3]\<rparr>,
      \<lparr>rows = [primaryRow 1 ''a'' ''1'' 1, primaryRow 2 ''b'' ''2'' 2,
               secondaryRow 3 ''a'' ''2'' 1 3],
       nextId = 4\<rparr>)"
  by code_simp

section \<open>The chain invariants along a sequence of calls\<close>

text \<open>
  Claim C2, evaluated on the code. From the empty store the calls (a, 1), (b, 2), (b, 3)
  build the primary 1, the primary 2 and the secondary 3 under 2, and the invariants hold.
  The call (b, 1) then finds the primaries 1 and 2 and the secondary 3 and merges the chain
  of 2 into 1: row 2 becomes a secondary of 1, and row 3 is written with
  \<open>linkedId = 1\<close> and \<open>linkPrecedence = PRIMARY\<close>, so that the chain of 1 holds two
  primaries.
\<close>

theorem C2_merge_breaks_chain_invariants:
  "chainInvariants emptyStore
   \<and> chainInvariants (identifySeq [(1, request ''a'' ''1''), (2, request ''b'' ''2''),
        (3, request ''b'' ''3'')] emptyStore)
   \<and> rows (identifySeq [(1, request ''a'' ''1''), (2, request ''b'' ''2''),
        (3, request ''b'' ''3''), (4, request ''b'' ''1'')] emptyStore)
      = [primaryRow 1 ''a'' ''1'' 1,
         secondaryRow 2 ''b'' ''2'' 1 2,
         (secondaryRow 3 ''b'' ''3'' 1 3)\<lparr>linkPrecedence := PRIMARY\<rparr>]
   \<and> \<not> chainInvariants (identifySeq [(1, request ''a'' ''1''), (2, request ''b'' ''2''),
        (3, request ''b'' ''3''), (4, request ''b'' ''1'')] emptyStore)"
  by code_simp


section \<open>What mergeContactChains writes\<close>

lemma updateContactLinkage_rows:
  "rows (snd (updateContactLinkage i u s)) =
     map (\<lambda>r. if contactId r = i then applyUpdate u r else r) (rows s)"
proof (cases "find (\<lambda>c. contactId c = i) (rows s)")
  case None
  then have "\<forall>r\<in>set (rows s). contactId r \<noteq> i"
    by (simp add: find_None_iff)
  then have "map (\<lambda>r. if contactId r = i then applyUpdate u r else r) (rows s) = rows s"
    by (induction "rows s") (auto simp: map_idI)
  with None show ?thesis by (simp add: updateContactLinkage_def)
next
  case (Some c)
  then show ?thesis by (simp add: updateContactLinkage_def)
qed

lemma updateContactLinkage_nextId: "nextId (snd (updateContactLinkage i u s)) = nextId s"
  by (simp add: updateContactLinkage_def split: option.splits)

lemma contactId_applyUpdate [simp]: "contactId (applyUpdate u r) = contactId r"
  by (simp add: applyUpdate_def)

lemma mergeLoop_rows:
  "rows (snd (mergeLoop older newer cs (upd, s))) =
     map (\<lambda>r. if contactId r \<in> rewritten newer cs then repointed older r else r) (rows s)"
proof (induction cs arbitrary: upd s)
  case Nil
  show ?case by (simp add: rewritten_def)
next
  case (Cons c cs)
  let ?u = "\<lparr>upd_phoneNumber = None, upd_email = None, upd_linkedId = Some (Some older),
                 upd_linkPrecedence = Some PRIMARY\<rparr>"
  have ap: "\<And>r. applyUpdate ?u r = repointed older r"
    by (simp add: applyUpdate_def repointed_def)
  show ?case
  proof (cases "contactId c \<noteq> newer \<and> linkPrecedence c = SECONDARY")
    case True
    obtain res s' where u: "updateContactLinkage (contactId c) ?u s = (res, s')"
      by (cases "updateContactLinkage (contactId c) ?u s")
    have r': "rows s' = map (\<lambda>r. if contactId r = contactId c then repointed older r else r) (rows s)"
      using updateContactLinkage_rows [of "contactId c" ?u s] u by (simp add: ap)
    have rw: "rewritten newer (c # cs) = insert (contactId c) (rewritten newer cs)"
      using True by (auto simp: rewritten_def)
    have "rows (snd (mergeLoop older newer (c # cs) (upd, s)))
          = map (\<lambda>r. if contactId r \<in> rewritten newer cs then repointed older r else r) (rows s')"
      using True u Cons.IH by (cases res) simp_all
    also have "\<dots> = map (\<lambda>r. if contactId r \<in> rewritten newer (c # cs) then repointed older r else r) (rows s)"
      by (simp add: r' rw repointed_def)
    finally show ?thesis .
  next
    case False
    then have rw: "rewritten newer (c # cs) = rewritten newer cs"
      by (auto simp: rewritten_def)
    show ?thesis using False Cons.IH by (auto simp: rw)
  qed
qed

lemma mergeLoop_nextId: "nextId (snd (mergeLoop older newer cs (upd, s))) = nextId s"
proof (induction cs arbitrary: upd s)
  case Nil show ?case by simp
next
  case (Cons c cs)
  show ?case
    using Cons.IH updateContactLinkage_nextId
    by (auto split: prod.splits sum.splits) (metis snd_conv)+
qed

lemma mergeContactChains_rows:
  "rows (snd (mergeContactChains older newer s)) =
     map (\<lambda>r. if contactId r \<in> rewritten newer (getAllLinkedContacts newer s) then repointed older r
               else if contactId r = newer \<and> newer \<in> contactId ` set (getAllLinkedContacts newer s)
               then demoted older r else r) (rows s)"
proof -
  let ?chain = "getAllLinkedContacts newer s"
  let ?u = "\<lparr>upd_phoneNumber = None, upd_email = None, upd_linkedId = Some (Some older),
                 upd_linkPrecedence = Some SECONDARY\<rparr>"
  have ap: "\<And>r. applyUpdate ?u r = demoted older r"
    by (simp add: applyUpdate_def demoted_def)
  have notin: "newer \<notin> rewritten newer ?chain" by (auto simp: rewritten_def)
  show ?thesis
  proof (cases "find (\<lambda>c. contactId c = newer) ?chain")
    case None
    then have "newer \<notin> contactId ` set ?chain" by (auto simp: find_None_iff)
    with None show ?thesis
      by (simp add: mergeContactChains_def mergeLoop_rows)
  next
    case (Some np)
    then have mem: "newer \<in> contactId ` set ?chain"
      by (metis (mono_tags, lifting) find_Some_iff image_eqI nth_mem)
    obtain res s' where u: "convertPrimaryToSecondary newer older s = (res, s')"
      by (cases "convertPrimaryToSecondary newer older s")
    have r': "rows s' = map (\<lambda>r. if contactId r = newer then demoted older r else r) (rows s)"
      using updateContactLinkage_rows [of newer ?u s] u
      by (simp add: ap convertPrimaryToSecondary_def)
    have "rows (snd (mergeContactChains older newer s))
        = map (\<lambda>r. if contactId r \<in> rewritten newer ?chain then repointed older r else r) (rows s')"
      using Some u by (cases res) (simp_all add: mergeContactChains_def mergeLoop_rows)
    also have "\<dots> = map (\<lambda>r. if contactId r \<in> rewritten newer ?chain then repointed older r
               else if contactId r = newer \<and> newer \<in> contactId ` set ?chain
               then demoted older r else r) (rows s)"
      using notin mem by (auto simp: r' demoted_def)
    finally show ?thesis .
  qed
qed


lemma find_SomeD: "find P xs = Some x \<Longrightarrow> x \<in> set xs \<and> P x"
  by (induction xs) (auto split: if_splits)

lemma mergeContactChains_nextId: "nextId (snd (mergeContactChains older newer s)) = nextId s"
proof -
  have "nextId (snd (convertPrimaryToSecondary newer older s)) = nextId s"
    by (simp add: convertPrimaryToSecondary_def updateContactLinkage_nextId)
  then show ?thesis
    by (auto simp: mergeContactChains_def mergeLoop_nextId Let_def
             split: option.splits prod.splits sum.splits)
qed

lemma set_orderByPrecedenceCreatedAt [simp]: "set (orderByPrecedenceCreatedAt xs) = set xs"
  by (simp add: orderByPrecedenceCreatedAt_def)

lemma getAllLinkedContacts_cases:
  "getAllLinkedContacts i s = []
   \<or> (\<exists>c. getAllLinkedContacts i s = [c] \<and> c \<in> set (rows s) \<and> contactId c = i
          \<and> deletedAt c = None)
   \<or> (\<exists>c p. find (\<lambda>c. contactId c = i \<and> deletedAt c = None) (rows s) = Some c \<and> 0 < p
          \<and> (if linkPrecedence c = PRIMARY then p = i else linkedId c = Some p)
          \<and> getAllLinkedContacts i s = orderByPrecedenceCreatedAt (chainFilter p s))"
proof (cases "find (\<lambda>c. contactId c = i \<and> deletedAt c = None) (rows s)")
  case None
  then show ?thesis by (simp add: getAllLinkedContacts_def)
next
  case (Some c)
  from find_SomeD [OF Some] have c: "c \<in> set (rows s)" "contactId c = i" "deletedAt c = None"
    by auto
  show ?thesis
  proof (cases "if linkPrecedence c = PRIMARY then Some (contactId c) else linkedId c")
    case None
    with Some c show ?thesis by (simp add: getAllLinkedContacts_def)
  next
    case (Some p)
    note p = this
    show ?thesis
    proof (cases "p = 0")
      case True
      with p \<open>find _ _ = Some c\<close> c show ?thesis by (simp add: getAllLinkedContacts_def)
    next
      case False
      with p \<open>find _ _ = Some c\<close> c show ?thesis
        by (auto simp: getAllLinkedContacts_def chainFilter_def split: if_splits)
    qed
  qed
qed

lemma getAllLinkedContacts_subset: "set (getAllLinkedContacts i s) \<subseteq> set (rows s)"
  using getAllLinkedContacts_cases [of i s] by (auto simp: chainFilter_def)

lemma getAllLinkedContacts_active: "c \<in> set (getAllLinkedContacts i s) \<Longrightarrow> deletedAt c = None"
  using getAllLinkedContacts_cases [of i s] by (auto simp: chainFilter_def)

lemma getAllLinkedContacts_primary_members:
  assumes "list_all (\<lambda>r. contactId r = i \<longrightarrow> linkPrecedence r = PRIMARY) (rows s)"
    and "c \<in> set (getAllLinkedContacts i s)"
  shows "contactId c = i \<or> linkedId c = Some i"
proof -
  from getAllLinkedContacts_cases [of i s] consider
      "getAllLinkedContacts i s = []"
    | c' where "getAllLinkedContacts i s = [c']" "contactId c' = i"
    | c' p where "find (\<lambda>c. contactId c = i \<and> deletedAt c = None) (rows s) = Some c'"
        "if linkPrecedence c' = PRIMARY then p = i else linkedId c' = Some p"
        "getAllLinkedContacts i s = orderByPrecedenceCreatedAt (chainFilter p s)"
    by blast
  then show ?thesis
  proof cases
    case 1
    with assms(2) show ?thesis by simp
  next
    case 2
    with assms(2) show ?thesis by simp
  next
    case 3
    from find_SomeD [OF 3(1)] assms(1) have "linkPrecedence c' = PRIMARY"
      by (auto simp: list_all_iff)
    with 3(2) have "p = i" by simp
    with 3(3) assms(2) show ?thesis by (auto simp: chainFilter_def)
  qed
qed

lemma getAllLinkedContacts_active_primary:
  assumes "list_all (\<lambda>r. contactId r = i \<longrightarrow> linkPrecedence r = PRIMARY) (rows s)"
    and "c \<in> set (rows s)" "contactId c = i" "deletedAt c = None" "0 < i"
  shows "getAllLinkedContacts i s = orderByPrecedenceCreatedAt (chainFilter i s)"
proof -
  have "find (\<lambda>c. contactId c = i \<and> deletedAt c = None) (rows s) \<noteq> None"
    using assms(2-4) by (auto simp: find_None_iff)
  then obtain c' where f: "find (\<lambda>c. contactId c = i \<and> deletedAt c = None) (rows s) = Some c'"
    by auto
  from find_SomeD [OF f] assms(1) have "linkPrecedence c' = PRIMARY" "contactId c' = i"
    by (auto simp: list_all_iff)
  then show ?thesis using f assms(5)
    by (simp add: getAllLinkedContacts_def chainFilter_def)
qed

lemma list_all2_map_same: "list_all2 P xs (map g xs) = (\<forall>x\<in>set xs. P x (g x))"
  by (simp add: list_all2_map2 list_all2_same)

lemma distinct_ids_eq:
  "distinct (map contactId xs) \<Longrightarrow> a \<in> set xs \<Longrightarrow> b \<in> set xs \<Longrightarrow> contactId a = contactId b \<Longrightarrow> a = b"
  by (meson distinct_map inj_onD)

lemma rewritten_member:
  assumes "distinct (map contactId (rows s))" "r \<in> set (rows s)"
  shows "contactId r \<in> rewritten newer (getAllLinkedContacts newer s)
       \<longleftrightarrow> r \<in> set (getAllLinkedContacts newer s) \<and> contactId r \<noteq> newer \<and> linkPrecedence r = SECONDARY"
proof
  assume "contactId r \<in> rewritten newer (getAllLinkedContacts newer s)"
  then obtain c where c: "c \<in> set (getAllLinkedContacts newer s)" "contactId c \<noteq> newer"
      "linkPrecedence c = SECONDARY" "contactId c = contactId r"
    by (auto simp: rewritten_def)
  then have "c \<in> set (rows s)" using getAllLinkedContacts_subset by blast
  with assms c(4) have "c = r" by (metis distinct_ids_eq)
  with c show "r \<in> set (getAllLinkedContacts newer s) \<and> contactId r \<noteq> newer \<and> linkPrecedence r = SECONDARY"
    by simp
next
  assume "r \<in> set (getAllLinkedContacts newer s) \<and> contactId r \<noteq> newer \<and> linkPrecedence r = SECONDARY"
  then show "contactId r \<in> rewritten newer (getAllLinkedContacts newer s)"
    by (auto simp: rewritten_def)
qed


text \<open>
  Claim C3, as the code has it. When the row under \<open>newer\<close> is an active primary with a
  positive id, \<open>mergeContactChains older newer\<close> writes that row with
  \<open>linkPrecedence = SECONDARY\<close> and \<open>linkedId = older\<close>, and sets \<open>linkedId = older\<close>
  on every other active row that links to \<open>newer\<close> and is marked secondary, leaving the
  other columns but \<open>linkPrecedence\<close> as they were. A row marked primary, other than
  \<open>newer\<close> itself, is not written, whatever it links to.
\<close>

theorem C3_merge_writes_secondaries_of_newer_chain:
  assumes di: "distinct (map contactId (rows s))"
    and pr: "list_all (\<lambda>r. contactId r = newer \<longrightarrow> linkPrecedence r = PRIMARY) (rows s)"
    and ex: "list_ex (\<lambda>r. contactId r = newer \<and> deletedAt r = None) (rows s)"
    and pos: "0 < newer"
  shows "list_all2 (\<lambda>r r'.
        (contactId r = newer \<longrightarrow> r' = r\<lparr>linkedId := Some older, linkPrecedence := SECONDARY\<rparr>)
      \<and> (contactId r \<noteq> newer \<and> deletedAt r = None \<and> linkedId r = Some newer
           \<and> linkPrecedence r = SECONDARY
           \<longrightarrow> linkedId r' = Some older
               \<and> r'\<lparr>linkedId := linkedId r, linkPrecedence := linkPrecedence r\<rparr> = r)
      \<and> (contactId r \<noteq> newer \<and> linkPrecedence r = PRIMARY \<longrightarrow> r' = r))
     (rows s) (rows (snd (mergeContactChains older newer s)))"
proof -
  let ?chain = "getAllLinkedContacts newer s"
  from ex obtain n where n: "n \<in> set (rows s)" "contactId n = newer" "deletedAt n = None"
    by (auto simp: list_ex_iff)
  have chain: "?chain = orderByPrecedenceCreatedAt (chainFilter newer s)"
    using getAllLinkedContacts_active_primary [OF pr n pos] .
  have nin: "n \<in> set ?chain" using n by (simp add: chain chainFilter_def)
  then have mem: "newer \<in> contactId ` set ?chain" using n(2) by force
  have notin: "newer \<notin> rewritten newer ?chain" by (auto simp: rewritten_def)
  show ?thesis
    unfolding mergeContactChains_rows list_all2_map_same
  proof (intro ballI conjI impI)
    fix r assume r: "r \<in> set (rows s)" and "contactId r = newer"
    then show "(if contactId r \<in> rewritten newer ?chain then repointed older r
          else if contactId r = newer \<and> newer \<in> contactId ` set ?chain then demoted older r else r)
        = r\<lparr>linkedId := Some older, linkPrecedence := SECONDARY\<rparr>"
      using notin mem by (simp add: demoted_def)
  next
    fix r assume r: "r \<in> set (rows s)"
      and h: "contactId r \<noteq> newer \<and> deletedAt r = None \<and> linkedId r = Some newer
               \<and> linkPrecedence r = SECONDARY"
    then have "r \<in> set ?chain" by (simp add: chain chainFilter_def)
    with h have "contactId r \<in> rewritten newer ?chain" by (auto simp: rewritten_def)
    then show "linkedId (if contactId r \<in> rewritten newer ?chain then repointed older r
          else if contactId r = newer \<and> newer \<in> contactId ` set ?chain then demoted older r else r) = Some older"
      and "(if contactId r \<in> rewritten newer ?chain then repointed older r
          else if contactId r = newer \<and> newer \<in> contactId ` set ?chain then demoted older r else r)
           \<lparr>linkedId := linkedId r, linkPrecedence := linkPrecedence r\<rparr> = r"
      by (simp_all add: repointed_def)
  next
    fix r assume r: "r \<in> set (rows s)" and h: "contactId r \<noteq> newer \<and> linkPrecedence r = PRIMARY"
    then have "contactId r \<notin> rewritten newer ?chain"
      using rewritten_member [OF di r] by simp
    with h show "(if contactId r \<in> rewritten newer ?chain then repointed older r
          else if contactId r = newer \<and> newer \<in> contactId ` set ?chain then demoted older r else r) = r"
      by simp
  qed
qed


theorem C3_merge_writes_witness:
  "distinct (map contactId (rows corruptedChainStore))
   \<and> list_all (\<lambda>r. contactId r = 2 \<longrightarrow> linkPrecedence r = PRIMARY) (rows corruptedChainStore)
   \<and> list_ex (\<lambda>r. contactId r = 2 \<and> deletedAt r = None) (rows corruptedChainStore)
   \<and> list_all2 (\<lambda>r r'.
        (contactId r = 2 \<longrightarrow> r' = r\<lparr>linkedId := Some 1, linkPrecedence := SECONDARY\<rparr>)
      \<and> (contactId r \<noteq> 2 \<and> deletedAt r = None \<and> linkedId r = Some 2
           \<and> linkPrecedence r = SECONDARY
           \<longrightarrow> linkedId r' = Some 1
               \<and> r'\<lparr>linkedId := linkedId r, linkPrecedence := linkPrecedence r\<rparr> = r)
      \<and> (contactId r \<noteq> 2 \<and> linkPrecedence r = PRIMARY \<longrightarrow> r' = r))
     (rows corruptedChainStore) (rows (snd (mergeContactChains 1 2 corruptedChainStore)))"
proof -
  have h1: "distinct (map contactId (rows corruptedChainStore))" by code_simp
  have h2: "list_all (\<lambda>r. contactId r = 2 \<longrightarrow> linkPrecedence r = PRIMARY) (rows corruptedChainStore)"
    by code_simp
  have h3: "list_ex (\<lambda>r. contactId r = 2 \<and> deletedAt r = None) (rows corruptedChainStore)"
    by code_simp
  have h4: "(0::nat) < 2" by simp
  from C3_merge_writes_secondaries_of_newer_chain [OF h1 h2 h3 h4, of 1] h1 h2 h3 show ?thesis by blast
qed

text \<open>
  Claim C3 as stated fails on \<open>corruptedChainStore\<close>: row 4 links to primary 2 and is
  marked primary; after the merge of 2 into 1 it still links to 2 and is still a primary.
  Row 3, a secondary of 2, links to 1 afterwards.
\<close>

theorem C3_primary_marked_member_not_written:
  "rows (snd (mergeContactChains 1 2 corruptedChainStore)) =
     [primaryRow 1 ''a'' ''1'' 1, secondaryRow 2 ''b'' ''2'' 1 2,
      (secondaryRow 3 ''b'' ''3'' 1 3)\<lparr>linkPrecedence := PRIMARY\<rparr>,
      (secondaryRow 4 ''c'' ''2'' 2 4)\<lparr>linkPrecedence := PRIMARY\<rparr>]"
  by code_simp

text \<open>
  Claim C9. For distinct primaries \<open>older\<close> and \<open>newer\<close>, \<open>mergeContactChains\<close>
  changes no row outside the chain fetched for \<open>newer\<close>; the row of \<open>older\<close> and every
  secondary that links to \<open>older\<close> are left as they were, and no row is created.
\<close>

theorem C9_merge_leaves_older_chain_unchanged:
  assumes di: "distinct (map contactId (rows s))"
    and ne: "older \<noteq> newer"
    and po: "list_all (\<lambda>r. contactId r = older \<longrightarrow> linkPrecedence r = PRIMARY) (rows s)"
    and pn: "list_all (\<lambda>r. contactId r = newer \<longrightarrow> linkPrecedence r = PRIMARY) (rows s)"
  shows "list_all2 (\<lambda>r r'.
          (r \<notin> set (getAllLinkedContacts newer s)
           \<or> contactId r = older
           \<or> (linkedId r = Some older \<and> linkPrecedence r = SECONDARY)) \<longrightarrow> r' = r)
       (rows s) (rows (snd (mergeContactChains older newer s)))
     \<and> nextId (snd (mergeContactChains older newer s)) = nextId s"
proof -
  let ?chain = "getAllLinkedContacts newer s"
  let ?g = "\<lambda>r. if contactId r \<in> rewritten newer ?chain then repointed older r
          else if contactId r = newer \<and> newer \<in> contactId ` set ?chain then demoted older r else r"
  have "?g r = r" if r: "r \<in> set (rows s)"
    and h: "r \<notin> set ?chain \<or> contactId r = older \<or> (linkedId r = Some older \<and> linkPrecedence r = SECONDARY)"
    for r
  proof -
    have prim_newer: "linkPrecedence x = PRIMARY" if "x \<in> set (rows s)" "contactId x = newer" for x
      using pn that by (auto simp: list_all_iff)
    have prim_older: "linkPrecedence x = PRIMARY" if "x \<in> set (rows s)" "contactId x = older" for x
      using po that by (auto simp: list_all_iff)
    from h consider "r \<notin> set ?chain" | "contactId r = older"
      | "linkedId r = Some older" "linkPrecedence r = SECONDARY" by blast
    then have "r \<notin> set ?chain \<or> (contactId r \<noteq> newer \<and> linkPrecedence r = PRIMARY)"
    proof cases
      case 1 then show ?thesis by simp
    next
      case 2 then show ?thesis using ne prim_older [OF r] by simp
    next
      case 3
      have "contactId r \<noteq> newer" using prim_newer [OF r] 3(2) by auto
      moreover have "linkedId r \<noteq> Some newer" using 3(1) ne by simp
      ultimately show ?thesis using getAllLinkedContacts_primary_members [OF pn] by blast
    qed
    then have a: "contactId r \<notin> rewritten newer ?chain"
      using rewritten_member [OF di r] by auto
    have b: "\<not> (contactId r = newer \<and> newer \<in> contactId ` set ?chain)"
    proof
      assume c: "contactId r = newer \<and> newer \<in> contactId ` set ?chain"
      then obtain x where x: "x \<in> set ?chain" "contactId x = newer" by auto
      then have "x \<in> set (rows s)" using getAllLinkedContacts_subset by blast
      with di r c x(2) have "x = r" by (metis distinct_ids_eq)
      with x(1) \<open>r \<notin> set ?chain \<or> (contactId r \<noteq> newer \<and> linkPrecedence r = PRIMARY)\<close> c
      show False by simp
    qed
    from a b show ?thesis by auto
  qed
  then show ?thesis
    unfolding mergeContactChains_rows list_all2_map_same
    by (simp add: mergeContactChains_nextId)
qed

theorem C9_merge_frame_witness:
  "distinct (map contactId (rows corruptedChainStore))
   \<and> list_all (\<lambda>r. contactId r = 1 \<longrightarrow> linkPrecedence r = PRIMARY) (rows corruptedChainStore)
   \<and> list_all (\<lambda>r. contactId r = 2 \<longrightarrow> linkPrecedence r = PRIMARY) (rows corruptedChainStore)
   \<and> list_all2 (\<lambda>r r'.
          (r \<notin> set (getAllLinkedContacts 2 corruptedChainStore)
           \<or> contactId r = 1
           \<or> (linkedId r = Some 1 \<and> linkPrecedence r = SECONDARY)) \<longrightarrow> r' = r)
       (rows corruptedChainStore) (rows (snd (mergeContactChains 1 2 corruptedChainStore)))
   \<and> nextId (snd (mergeContactChains 1 2 corruptedChainStore)) = 5"
proof -
  have h1: "distinct (map contactId (rows corruptedChainStore))" by code_simp
  have h2: "list_all (\<lambda>r. contactId r = 1 \<longrightarrow> linkPrecedence r = PRIMARY) (rows corruptedChainStore)"
    by code_simp
  have h3: "list_all (\<lambda>r. contactId r = 2 \<longrightarrow> linkPrecedence r = PRIMARY) (rows corruptedChainStore)"
    by code_simp
  have h4: "(1::nat) \<noteq> 2" by simp
  have n: "nextId corruptedChainStore = 5" by code_simp
  from C9_merge_leaves_older_chain_unchanged [OF h1 h4 h2 h3] h1 h2 h3 n show ?thesis by simp
qed

section \<open>The new secondary of the multiple-primaries branch\<close>

lemma checkIfNeedsNewSecondary_iff:
  "checkIfNeedsNewSecondary pid e p s \<longleftrightarrow>
     truthy e \<and> truthy p
     \<and> ((e \<in> email ` set (getAllLinkedContacts pid s)) \<noteq> (p \<in> phoneNumber ` set (getAllLinkedContacts pid s)))"
  by (auto simp: checkIfNeedsNewSecondary_def getLinkedContactChain_def Let_def list_ex_iff)

lemma orNullOpt_truthy: "truthy v \<Longrightarrow> orNullOpt v = v"
  by (simp add: orNullOpt_def)

lemma truthy_orNullOpt [simp]: "truthy (orNullOpt v) = truthy v"
  by (simp add: orNullOpt_def truthy_def)


text \<open>
  Claim C4, as the code has it. In the multiple-primaries branch, after the chains of all
  younger primaries are merged into the oldest, a new secondary holding the requested pair is
  appended under the oldest primary if and only if both requested values are non-empty and
  exactly one of them is already on a contact of the merged chain; otherwise the store is
  the merged store.
\<close>

theorem C4_new_secondary_after_merge_iff_one_known_one_new:
  assumes "sort_key createdAt (filter isPrimary cs) = olderPrimary # newerPrimaries"
  shows "snd (handleMultiplePrimaryContacts now cs e p s) =
     (let s1 = mergeAll (contactId olderPrimary) newerPrimaries s;
          chain = getAllLinkedContacts (contactId olderPrimary) s1
      in if truthy e \<and> truthy p \<and> ((e \<in> email ` set chain) \<noteq> (p \<in> phoneNumber ` set chain))
         then \<lparr>rows = rows s1 @ [\<lparr>contactId = nextId s1, email = e, phoneNumber = p,
                   linkedId = Some (contactId olderPrimary), linkPrecedence = SECONDARY,
                   createdAt = now, deletedAt = None\<rparr>],
               nextId = Suc (nextId s1)\<rparr>
         else s1)"
proof (cases "truthy e \<and> truthy p")
  case True
  then have "orNullOpt e = e" "orNullOpt p = p" by (simp_all add: orNullOpt_truthy)
  then show ?thesis
    using assms True
    by (simp add: handleMultiplePrimaryContacts_def checkIfNeedsNewSecondary_iff Let_def
        createSecondaryContact_def createContact_def)
next
  case False
  then show ?thesis
    using assms
    by (auto simp: handleMultiplePrimaryContacts_def checkIfNeedsNewSecondary_iff Let_def)
qed

theorem C4_new_secondary_witness:
  "sort_key createdAt (filter isPrimary (rows sharedEmailStore))
     = primaryRow 1 ''a'' ''1'' 1 # [primaryRow 2 ''a'' ''2'' 2]
   \<and> snd (handleMultiplePrimaryContacts 4 (rows sharedEmailStore) (Some ''a'') (Some ''9'') sharedEmailStore)
     = \<lparr>rows = [primaryRow 1 ''a'' ''1'' 1, secondaryRow 2 ''a'' ''2'' 1 2,
                secondaryRow 3 ''a'' ''3'' 1 3, secondaryRow 4 ''a'' ''9'' 1 4],
        nextId = 5\<rparr>"
proof -
  have h: "sort_key createdAt (filter isPrimary (rows sharedEmailStore))
     = primaryRow 1 ''a'' ''1'' 1 # [primaryRow 2 ''a'' ''2'' 2]" by code_simp
  have e: "(let s1 = mergeAll (contactId (primaryRow 1 ''a'' ''1'' 1)) [primaryRow 2 ''a'' ''2'' 2] sharedEmailStore;
          chain = getAllLinkedContacts (contactId (primaryRow 1 ''a'' ''1'' 1)) s1
      in if truthy (Some ''a'') \<and> truthy (Some ''9'') \<and> ((Some ''a'' \<in> email ` set chain) \<noteq> (Some ''9'' \<in> phoneNumber ` set chain))
         then \<lparr>rows = rows s1 @ [\<lparr>contactId = nextId s1, email = Some ''a'', phoneNumber = Some ''9'',
                   linkedId = Some (contactId (primaryRow 1 ''a'' ''1'' 1)), linkPrecedence = SECONDARY,
                   createdAt = 4, deletedAt = None\<rparr>],
               nextId = Suc (nextId s1)\<rparr>
         else s1) = \<lparr>rows = [primaryRow 1 ''a'' ''1'' 1, secondaryRow 2 ''a'' ''2'' 1 2,
                secondaryRow 3 ''a'' ''3'' 1 3, secondaryRow 4 ''a'' ''9'' 1 4],
        nextId = 5\<rparr>" by code_simp
  from C4_new_secondary_after_merge_iff_one_known_one_new [OF h, of 4 "Some ''a''" "Some ''9''" sharedEmailStore] h e show ?thesis by simp
qed

text \<open>
  Claim C4 as stated fails on \<open>branchDStore\<close> with the request (b, 1): the candidates hold
  two primaries and a secondary, the call runs the multiple-primaries branch, no contact of
  the result carries the pair (b, 1), and yet no row is appended.
\<close>

theorem C4_absent_pair_no_secondary_appended:
  "hasMultiplePrimaryContacts (findContactsByEmailOrPhone (Some ''b'') (Some ''1'') branchDStore)
   \<and> snd (identifyContact 4 (request ''b'' ''1'') branchDStore)
      = snd (handleMultiplePrimaryContacts 4 (findContactsByEmailOrPhone (Some ''b'') (Some ''1'') branchDStore)
               (Some ''b'') (Some ''1'') branchDStore)
   \<and> rows (snd (identifyContact 4 (request ''b'' ''1'') branchDStore))
      = [primaryRow 1 ''a'' ''1'' 1, secondaryRow 2 ''b'' ''2'' 1 2,
         (secondaryRow 3 ''b'' ''3'' 1 3)\<lparr>linkPrecedence := PRIMARY\<rparr>]
   \<and> \<not> list_ex (\<lambda>c. email c = Some ''b'' \<and> phoneNumber c = Some ''1'')
         (rows (snd (identifyContact 4 (request ''b'' ''1'') branchDStore)))"
  by code_simp

section \<open>Exact duplicates\<close>

lemma foldl_pickOldest:
  "foldl pickOldest x xs \<in> set (x # xs)
   \<and> (\<forall>y\<in>set (x # xs). createdAt (foldl pickOldest x xs) \<le> createdAt y)"
proof (induction xs arbitrary: x)
  case Nil show ?case by simp
next
  case (Cons a xs)
  from Cons.IH [of "pickOldest x a"] show ?case
    by (auto simp: pickOldest_def split: if_splits)
qed

lemma reduceOldest_None: "reduceOldest xs = None \<longleftrightarrow> xs = []"
  by (simp add: reduceOldest_def split: list.splits)

lemma reduceOldest_Some:
  "reduceOldest xs = Some x \<Longrightarrow> x \<in> set xs \<and> (\<forall>y\<in>set xs. createdAt x \<le> createdAt y)"
  using foldl_pickOldest by (cases xs) (auto simp: reduceOldest_def)

lemma searchPrimary_findExisting:
  "searchPrimary (findExistingContacts e p s) =
     reduceOldest (filter isPrimary (findContactsByEmailOrPhone e p s))"
proof (cases "reduceOldest (filter isPrimary (findContactsByEmailOrPhone e p s))")
  case None
  then have "filter isPrimary (findContactsByEmailOrPhone e p s) = []"
    by (simp add: reduceOldest_None)
  then have "find isPrimary (findContactsByEmailOrPhone e p s) = None"
    by (simp add: find_None_iff filter_empty_conv)
  with None show ?thesis by (simp add: searchPrimary_def findExistingContacts_def Let_def)
next
  case (Some a)
  then show ?thesis by (simp add: searchPrimary_def findExistingContacts_def Let_def)
qed

lemma identifyContact_exact_duplicate:
  assumes "isExactDuplicate (findContactsByEmailOrPhone (orNull (req_email r)) (orNull (req_phoneNumber r)) s)
             (req_email r) (req_phoneNumber r)"
  shows "identifyContact now r s =
           (case reduceOldest (filter isPrimary
                   (findContactsByEmailOrPhone (orNull (req_email r)) (orNull (req_phoneNumber r)) s)) of
              None \<Rightarrow> Inl ''No primary contact found in search results''
            | Some pc \<Rightarrow> consolidateAndReturn (contactId pc) s, s)"
proof -
  let ?cs = "findContactsByEmailOrPhone (orNull (req_email r)) (orNull (req_phoneNumber r)) s"
  have ne: "?cs \<noteq> []" using assms by (auto simp: isExactDuplicate_def)
  have c: "contacts (findExistingContacts (orNull (req_email r)) (orNull (req_phoneNumber r)) s) = ?cs"
    by (simp add: findExistingContacts_def Let_def)
  show ?thesis
    using ne assms
    by (simp add: identifyContact_def Let_def c handleExactDuplicate_def searchPrimary_findExisting
             split: option.splits)
qed


text \<open>
  Claim C5, as the code has it. When a candidate carries the request's email and phone
  number, the call writes nothing. It fails with the message "No primary contact found in
  search results" when no candidate is a primary, and otherwise returns the consolidated
  view fetched for a primary candidate of least creation time; the \<open>linkedId\<close> of the
  duplicate is not followed.
\<close>

theorem C5_exact_duplicate_resolves_to_oldest_primary_candidate:
  assumes "isExactDuplicate (findContactsByEmailOrPhone (orNull (req_email r)) (orNull (req_phoneNumber r)) s)
             (req_email r) (req_phoneNumber r)"
  shows "snd (identifyContact now r s) = s
     \<and> (list_all (\<lambda>c. \<not> isPrimary c)
           (findContactsByEmailOrPhone (orNull (req_email r)) (orNull (req_phoneNumber r)) s)
         \<longrightarrow> fst (identifyContact now r s) = Inl ''No primary contact found in search results'')
     \<and> (list_ex isPrimary
           (findContactsByEmailOrPhone (orNull (req_email r)) (orNull (req_phoneNumber r)) s)
         \<longrightarrow> (\<exists>pc \<in> set (findContactsByEmailOrPhone (orNull (req_email r)) (orNull (req_phoneNumber r)) s).
                isPrimary pc
              \<and> (\<forall>q \<in> set (findContactsByEmailOrPhone (orNull (req_email r)) (orNull (req_phoneNumber r)) s).
                    isPrimary q \<longrightarrow> createdAt pc \<le> createdAt q)
              \<and> fst (identifyContact now r s) = consolidateAndReturn (contactId pc) s))"
proof -
  let ?cs = "findContactsByEmailOrPhone (orNull (req_email r)) (orNull (req_phoneNumber r)) s"
  note eq = identifyContact_exact_duplicate [OF assms, of now]
  have 1: "snd (identifyContact now r s) = s" by (simp add: eq)
  have 2: "fst (identifyContact now r s) = Inl ''No primary contact found in search results''"
    if "list_all (\<lambda>c. \<not> isPrimary c) ?cs"
  proof -
    from that have "filter isPrimary ?cs = []" by (simp add: filter_empty_conv list_all_iff)
    then show ?thesis by (simp add: eq reduceOldest_def)
  qed
  have 3: "\<exists>pc \<in> set ?cs. isPrimary pc \<and> (\<forall>q \<in> set ?cs. isPrimary q \<longrightarrow> createdAt pc \<le> createdAt q)
              \<and> fst (identifyContact now r s) = consolidateAndReturn (contactId pc) s"
    if "list_ex isPrimary ?cs"
  proof -
    from that have "filter isPrimary ?cs \<noteq> []" by (auto simp: filter_empty_conv list_ex_iff)
    then obtain pc where pc: "reduceOldest (filter isPrimary ?cs) = Some pc"
      using reduceOldest_None by (cases "reduceOldest (filter isPrimary ?cs)") auto
    from reduceOldest_Some [OF pc] have "pc \<in> set ?cs" "isPrimary pc"
      "\<forall>q \<in> set ?cs. isPrimary q \<longrightarrow> createdAt pc \<le> createdAt q" by auto
    moreover have "fst (identifyContact now r s) = consolidateAndReturn (contactId pc) s"
      by (simp add: eq pc)
    ultimately show ?thesis by blast
  qed
  from 1 2 3 show ?thesis by blast
qed

theorem C5_exact_duplicate_witness:
  "isExactDuplicate
     (findContactsByEmailOrPhone (orNull (req_email (request ''a'' ''3'')))
        (orNull (req_phoneNumber (request ''a'' ''3''))) mergedChainStore)
     (req_email (request ''a'' ''3'')) (req_phoneNumber (request ''a'' ''3''))
   \<and> snd (identifyContact 5 (request ''a'' ''3'') mergedChainStore) = mergedChainStore
   \<and> fst (identifyContact 5 (request ''a'' ''3'') mergedChainStore)
       = consolidateAndReturn 1 mergedChainStore"
proof -
  let ?cs = "findContactsByEmailOrPhone (orNull (req_email (request ''a'' ''3'')))
               (orNull (req_phoneNumber (request ''a'' ''3''))) mergedChainStore"
  have h: "isExactDuplicate ?cs (req_email (request ''a'' ''3''))
             (req_phoneNumber (request ''a'' ''3''))"
    by code_simp
  have cs: "?cs = [primaryRow 1 ''a'' ''1'' 1, secondaryRow 3 ''a'' ''3'' 1 3]"
    by code_simp
  have p: "list_ex isPrimary ?cs"
    by code_simp
  from C5_exact_duplicate_resolves_to_oldest_primary_candidate [OF h, of 5] p
  obtain pc where pc: "pc \<in> set ?cs" "isPrimary pc"
      "fst (identifyContact 5 (request ''a'' ''3'') mergedChainStore)
         = consolidateAndReturn (contactId pc) mergedChainStore"
    and st: "snd (identifyContact 5 (request ''a'' ''3'') mergedChainStore) = mergedChainStore"
    by blast
  from pc(1,2) have "contactId pc = 1"
    unfolding cs by (auto simp: isPrimary_def primaryRow_def secondaryRow_def)
  with pc(3) st h show ?thesis by simp
qed

text \<open>
  Claim C5 as stated fails on \<open>mergedChainStore\<close> with the request (b, 2): the only
  candidate is row 2, an exact duplicate and a secondary of primary 1; consolidating the
  chain of 1 would succeed, but the call fails.
\<close>

theorem C5_duplicate_secondary_alone_fails:
  "isExactDuplicate (findContactsByEmailOrPhone (Some ''b'') (Some ''2'') mergedChainStore)
      (Str ''b'') (Str ''2'')
   \<and> findContactsByEmailOrPhone (Some ''b'') (Some ''2'') mergedChainStore = [secondaryRow 2 ''b'' ''2'' 1 2]
   \<and> consolidateAndReturn 1 mergedChainStore
       = Inr \<lparr>primaryContactId = 1, emails = [''a'', ''b''], phoneNumbers = [''1'', ''2'', ''3''],
              secondaryContactIds = [2, 3]\<rparr>
   \<and> identifyContact 5 (request ''b'' ''2'') mergedChainStore
       = (Inl ''No primary contact found in search results'', mergedChainStore)"
  by code_simp

lemma strictEq_orNull:
  "orNull v \<noteq> None \<Longrightarrow> strictEq c v \<Longrightarrow> truthy (orNull v) \<and> c = orNull v"
  by (auto simp: orNull_def strictEq_def truthy_def split: JsField.splits if_splits)

lemma not_falsy_orNull: "\<not> falsy v \<Longrightarrow> orNull v \<noteq> None"
  by (auto simp: orNull_def falsy_def split: JsField.splits)

lemma present_isExactDuplicate:
  assumes "\<not> falsy (req_email r) \<or> \<not> falsy (req_phoneNumber r)"
    and "list_ex (\<lambda>c. deletedAt c = None \<and> strictEq (email c) (req_email r)
                      \<and> strictEq (phoneNumber c) (req_phoneNumber r)) (rows s)"
  shows "isExactDuplicate (findContactsByEmailOrPhone (orNull (req_email r)) (orNull (req_phoneNumber r)) s)
             (req_email r) (req_phoneNumber r)"
proof -
  from assms(2) obtain c where c: "c \<in> set (rows s)" "deletedAt c = None"
      "strictEq (email c) (req_email r)" "strictEq (phoneNumber c) (req_phoneNumber r)"
    by (auto simp: list_ex_iff)
  from assms(1) have "(truthy (orNull (req_email r)) \<and> email c = orNull (req_email r))
      \<or> (truthy (orNull (req_phoneNumber r)) \<and> phoneNumber c = orNull (req_phoneNumber r))"
    using strictEq_orNull [OF not_falsy_orNull] c(3,4) by blast
  then have "c \<in> set (findContactsByEmailOrPhone (orNull (req_email r)) (orNull (req_phoneNumber r)) s)"
    using c(1,2) by (auto simp: findContactsByEmailOrPhone_def)
  then show ?thesis using c(3,4) by (auto simp: isExactDuplicate_def list_ex_iff)
qed


lemma contactData_applyUpdate:
  "upd_email u = None \<Longrightarrow> upd_phoneNumber u = None \<Longrightarrow> contactData (applyUpdate u c) = contactData c"
  by (simp add: contactData_def applyUpdate_def)

lemma contactData_updateContactLinkage:
  assumes "upd_email u = None" "upd_phoneNumber u = None"
  shows "map contactData (rows (snd (updateContactLinkage i u s))) = map contactData (rows s)"
  unfolding updateContactLinkage_rows
  by (simp add: contactData_applyUpdate [OF assms] o_def cong: if_cong)

lemma contactData_mergeContactChains:
  "map contactData (rows (snd (mergeContactChains older newer s))) = map contactData (rows s)"
  unfolding mergeContactChains_rows
  by (simp add: contactData_def repointed_def demoted_def o_def)

lemma contactData_mergeAll:
  "map contactData (rows (mergeAll older newers s)) = map contactData (rows s)"
  unfolding mergeAll_def
  by (induction newers arbitrary: s) (simp_all add: contactData_mergeContactChains)

lemma candidates_nonempty_iff:
  "findContactsByEmailOrPhone e p s \<noteq> [] \<longleftrightarrow>
     (truthy e \<or> truthy p) \<and>
     list_ex (\<lambda>d. ((truthy e \<and> fst (snd d) = e) \<or> (truthy p \<and> fst (snd (snd d)) = p))
                  \<and> snd (snd (snd (snd d))) = None) (map contactData (rows s))"
proof -
  have "sort_key createdAt xs \<noteq> [] \<longleftrightarrow> xs \<noteq> []" for xs :: "Contact list"
    by (metis length_sort length_0_conv)
  then show ?thesis
    by (auto simp: findContactsByEmailOrPhone_def list_ex_iff filter_empty_conv contactData_def)
qed

lemma candidate_matches:
  "c \<in> set (findContactsByEmailOrPhone e p s) \<Longrightarrow>
     c \<in> set (rows s) \<and> deletedAt c = None \<and> ((truthy e \<and> email c = e) \<or> (truthy p \<and> phoneNumber c = p))"
  by (auto simp: findContactsByEmailOrPhone_def split: if_splits)

lemma truthy_None [simp]: "\<not> truthy None"
  by (simp add: truthy_def)

lemma needsSecondaryContact_single_field:
  assumes "e = None \<or> p = None"
    and "(truthy e \<and> email pc = e) \<or> (truthy p \<and> phoneNumber pc = p)"
  shows "\<not> needsSecondaryContact pc e p"
  using assms by (auto simp: needsSecondaryContact_def)

lemma checkIfNeedsNewSecondary_single_field:
  "e = None \<or> p = None \<Longrightarrow> \<not> checkIfNeedsNewSecondary pid e p s"
  by (auto simp: checkIfNeedsNewSecondary_iff)

lemma orNullOpt_None [simp]: "orNullOpt None = None"
  by (simp add: orNullOpt_def)

lemma orNullOpt_orNull [simp]: "orNullOpt (orNull v) = orNull v"
  by (auto simp: orNullOpt_def orNull_def truthy_def split: JsField.splits)

lemma identifyContact_single_field_data:
  assumes one: "orNull (req_email r) = None \<or> orNull (req_phoneNumber r) = None"
    and ne: "findContactsByEmailOrPhone (orNull (req_email r)) (orNull (req_phoneNumber r)) s \<noteq> []"
  shows "map contactData (rows (snd (identifyContact now r s))) = map contactData (rows s)"
proof -
  let ?e = "orNull (req_email r)" and ?p = "orNull (req_phoneNumber r)"
  let ?cs = "findContactsByEmailOrPhone ?e ?p s"
  let ?sr = "findExistingContacts ?e ?p s"
  have cs: "contacts ?sr = ?cs" and pc: "primaryContact ?sr = reduceOldest (filter isPrimary ?cs)"
    by (simp_all add: findExistingContacts_def Let_def)
  have B: "snd (handleExactDuplicate ?sr s) = s"
    by (simp add: handleExactDuplicate_def split: option.splits)
  have C: "snd (handleSinglePrimaryContact now ?sr ?e ?p s) = s"
  proof (cases "primaryContact ?sr")
    case None
    then show ?thesis by (simp add: handleSinglePrimaryContact_def)
  next
    case (Some q)
    with pc have "q \<in> set ?cs" using reduceOldest_Some [of "filter isPrimary ?cs" q] by auto
    from candidate_matches [OF this] one
    have "\<not> needsSecondaryContact q ?e ?p"
      by (intro needsSecondaryContact_single_field) auto
    with Some show ?thesis by (simp add: handleSinglePrimaryContact_def)
  qed
  have D: "map contactData (rows (snd (handleMultiplePrimaryContacts now ?cs ?e ?p s)))
            = map contactData (rows s)"
    using one
    by (auto simp: handleMultiplePrimaryContacts_def Let_def contactData_mergeAll
          checkIfNeedsNewSecondary_single_field split: list.splits)
  have E: "map contactData (rows (snd (handleExistingChain now ?sr ?e ?p s)))
            = map contactData (rows s)"
  proof (cases "searchPrimary ?sr")
    case (Some q)
    then show ?thesis
      using one by (simp add: handleExistingChain_def Let_def checkIfNeedsNewSecondary_single_field)
  next
    case None
    from ne obtain oldest where o: "reduceOldest ?cs = Some oldest"
      using reduceOldest_None [of ?cs] by (cases "reduceOldest ?cs") auto
    from reduceOldest_Some [OF o] have "oldest \<in> set ?cs" by simp
    from candidate_matches [OF this] have "oldest \<in> set (rows s)" by simp
    then have f: "find (\<lambda>c. contactId c = contactId oldest) (rows s) \<noteq> None"
      by (auto simp: find_None_iff)
    let ?u = "\<lparr>upd_phoneNumber = None, upd_email = None, upd_linkedId = Some None,
                upd_linkPrecedence = Some PRIMARY\<rparr>"
    from f obtain d s1 where u: "updateContactLinkage (contactId oldest) ?u s = (Inr d, s1)"
      by (auto simp: updateContactLinkage_def split: option.splits)
    have "map contactData (rows s1) = map contactData (rows s)"
      using contactData_updateContactLinkage [of ?u "contactId oldest" s] u by simp
    with None o u show ?thesis
      by (simp add: handleExistingChain_def cs)
  qed
  show ?thesis
    using ne B C D E by (simp add: identifyContact_def Let_def cs)
qed


lemma fieldPresent_strictEq: "v \<noteq> Undefined \<Longrightarrow> fieldPresent c v \<Longrightarrow> strictEq c v"
  by (cases v) (simp_all add: fieldPresent_def strictEq_def)

lemma fieldPresent_orNull: "\<not> falsy v \<Longrightarrow> fieldPresent c v \<Longrightarrow> truthy (orNull v) \<and> c = orNull v"
  by (cases v) (simp_all add: fieldPresent_def falsy_def orNull_def truthy_def)

lemma orNull_Undefined [simp]: "orNull Undefined = None"
  by (simp add: orNull_def)

lemma falsy_Undefined [simp]: "falsy Undefined"
  by (simp add: falsy_def)


text \<open>
  Claim C6, as the code has it. Let some active row carry the request's email and phone
  number, a field left out of the request counting as null, and let one of the two be
  non-empty. Then neither of two successive calls creates a row: afterwards the store holds
  the same rows with the same ids, emails, phone numbers and timestamps. When the request
  leaves no field out, the first call leaves the store as it is and the second call returns
  what the first returned: the same response, or the same failure.
\<close>

theorem C6_exact_duplicate_twice_same_result_no_write:
  assumes A1: "\<not> falsy (req_email r) \<or> \<not> falsy (req_phoneNumber r)"
    and A2: "list_ex (\<lambda>c. deletedAt c = None \<and> fieldPresent (email c) (req_email r)
                       \<and> fieldPresent (phoneNumber c) (req_phoneNumber r)) (rows s)"
  shows "map contactData (rows (snd (identifyContact now r s))) = map contactData (rows s)
       \<and> map contactData (rows (snd (identifyContact now' r (snd (identifyContact now r s)))))
           = map contactData (rows s)
       \<and> (req_email r \<noteq> Undefined \<and> req_phoneNumber r \<noteq> Undefined \<longrightarrow>
            snd (identifyContact now r s) = s
            \<and> identifyContact now' r (snd (identifyContact now r s)) = identifyContact now r s)"
proof (cases "req_email r \<noteq> Undefined \<and> req_phoneNumber r \<noteq> Undefined")
  case True
  from A2 obtain c where c: "c \<in> set (rows s)" "deletedAt c = None"
      "fieldPresent (email c) (req_email r)" "fieldPresent (phoneNumber c) (req_phoneNumber r)"
    by (auto simp: list_ex_iff)
  with True have "strictEq (email c) (req_email r)" "strictEq (phoneNumber c) (req_phoneNumber r)"
    by (simp_all add: fieldPresent_strictEq)
  with c(1,2) have "list_ex (\<lambda>c. deletedAt c = None \<and> strictEq (email c) (req_email r)
                      \<and> strictEq (phoneNumber c) (req_phoneNumber r)) (rows s)"
    by (auto simp: list_ex_iff)
  from present_isExactDuplicate [OF A1 this]
  show ?thesis by (simp add: identifyContact_exact_duplicate)
next
  case False
  let ?e = "orNull (req_email r)" and ?p = "orNull (req_phoneNumber r)"
  from False have one: "?e = None \<or> ?p = None" by auto
  from A2 obtain c where c: "c \<in> set (rows s)" "deletedAt c = None"
      "fieldPresent (email c) (req_email r)" "fieldPresent (phoneNumber c) (req_phoneNumber r)"
    by (auto simp: list_ex_iff)
  from A1 c(3,4) have m: "(truthy ?e \<and> email c = ?e) \<or> (truthy ?p \<and> phoneNumber c = ?p)"
    using fieldPresent_orNull by blast
  with c(1,2) have "c \<in> set (findContactsByEmailOrPhone ?e ?p s)"
    by (auto simp: findContactsByEmailOrPhone_def)
  then have ne: "findContactsByEmailOrPhone ?e ?p s \<noteq> []" by auto
  let ?s1 = "snd (identifyContact now r s)"
  have d1: "map contactData (rows ?s1) = map contactData (rows s)"
    using identifyContact_single_field_data [OF one ne] .
  have ne1: "findContactsByEmailOrPhone ?e ?p ?s1 \<noteq> []"
    using ne unfolding candidates_nonempty_iff d1 .
  have d2: "map contactData (rows (snd (identifyContact now' r ?s1))) = map contactData (rows ?s1)"
    using identifyContact_single_field_data [OF one ne1] .
  from d1 d2 False show ?thesis by auto
qed

theorem C6_exact_duplicate_twice_witness:
  "\<not> falsy (req_email (request ''a'' ''3''))
   \<and> list_ex (\<lambda>c. deletedAt c = None \<and> fieldPresent (email c) (req_email (request ''a'' ''3''))
                    \<and> fieldPresent (phoneNumber c) (req_phoneNumber (request ''a'' ''3'')))
         (rows mergedChainStore)
   \<and> snd (identifyContact 5 (request ''a'' ''3'') mergedChainStore) = mergedChainStore
   \<and> identifyContact 6 (request ''a'' ''3'') (snd (identifyContact 5 (request ''a'' ''3'') mergedChainStore))
      = identifyContact 5 (request ''a'' ''3'') mergedChainStore"
proof -
  have f: "\<not> falsy (req_email (request ''a'' ''3''))"
    by code_simp
  have h2: "list_ex (\<lambda>c. deletedAt c = None \<and> fieldPresent (email c) (req_email (request ''a'' ''3''))
                    \<and> fieldPresent (phoneNumber c) (req_phoneNumber (request ''a'' ''3'')))
         (rows mergedChainStore)"
    by code_simp
  have u: "req_email (request ''a'' ''3'') \<noteq> Undefined"
    "req_phoneNumber (request ''a'' ''3'') \<noteq> Undefined"
    by (simp_all add: request_def)
  from f have h1: "\<not> falsy (req_email (request ''a'' ''3''))
                   \<or> \<not> falsy (req_phoneNumber (request ''a'' ''3''))"
    by simp
  from C6_exact_duplicate_twice_same_result_no_write [OF h1 h2, of 5 6] u f h2
  show ?thesis by blast
qed

text \<open>
  Claim C6 as stated fails after the calls (a, 1), (b, 2), (a, 3), (a, 2) from the empty
  store: row 2 carries the pair (b, 2), and both calls with (b, 2) return a failure, so no
  primaryContactId is returned.
\<close>

theorem C6_present_pair_call_fails:
  "list_ex (\<lambda>c. deletedAt c = None \<and> fieldPresent (email c) (Str ''b'')
                  \<and> fieldPresent (phoneNumber c) (Str ''2''))
     (rows (identifySeq [(1, request ''a'' ''1''), (2, request ''b'' ''2''), (3, request ''a'' ''3''),
          (4, request ''a'' ''2'')] emptyStore))
   \<and> fst (identifyContact 5 (request ''b'' ''2'')
       (identifySeq [(1, request ''a'' ''1''), (2, request ''b'' ''2''), (3, request ''a'' ''3''),
          (4, request ''a'' ''2'')] emptyStore)) = Inl ''No primary contact found in search results''
   \<and> fst (identifyContact 6 (request ''b'' ''2'')
       (snd (identifyContact 5 (request ''b'' ''2'')
       (identifySeq [(1, request ''a'' ''1''), (2, request ''b'' ''2''), (3, request ''a'' ''3''),
          (4, request ''a'' ''2'')] emptyStore)))) = Inl ''No primary contact found in search results''"
  by code_simp

section \<open>The consolidated response\<close>

lemma addAll_snoc: "addAll (ws @ [w]) = addIfTruthy w (addAll ws)"
  by (simp add: addAll_def)

lemma addIfTruthy_cases:
  "addIfTruthy w xs = xs \<and> (\<forall>v. w = Some v \<longrightarrow> v = [] \<or> v \<in> set xs)
   \<or> (\<exists>v. w = Some v \<and> v \<noteq> [] \<and> v \<notin> set xs \<and> addIfTruthy w xs = xs @ [v])"
  by (auto simp: addIfTruthy_def setAdd_def split: option.splits)

lemma set_addIfTruthy:
  "set (addIfTruthy w xs) = set xs \<union> {v. v \<noteq> [] \<and> w = Some v}"
  by (cases w) (auto simp: addIfTruthy_def setAdd_def)

lemma distinct_addIfTruthy: "distinct xs \<Longrightarrow> distinct (addIfTruthy w xs)"
  by (cases w) (auto simp: addIfTruthy_def setAdd_def)

lemma set_addAll: "set (addAll ws) = {v. v \<noteq> [] \<and> Some v \<in> set ws}"
proof (induction ws rule: rev_induct)
  case Nil
  show ?case by (simp add: addAll_def)
next
  case (snoc w ws)
  have "set (addAll (ws @ [w])) = set (addAll ws) \<union> {v. v \<noteq> [] \<and> w = Some v}"
    by (simp only: addAll_snoc set_addIfTruthy)
  also have "\<dots> = {v. v \<noteq> [] \<and> Some v \<in> set ws} \<union> {v. v \<noteq> [] \<and> w = Some v}"
    by (simp only: snoc)
  also have "\<dots> = {v. v \<noteq> [] \<and> Some v \<in> set (ws @ [w])}"
    by auto
  finally show ?case .
qed

lemma distinct_addAll: "distinct (addAll ws)"
proof (induction ws rule: rev_induct)
  case Nil
  show ?case by (simp add: addAll_def)
next
  case (snoc w ws)
  then show ?case by (simp only: addAll_snoc distinct_addIfTruthy)
qed

lemma addAll_order:
  "i < j \<Longrightarrow> j < length (addAll ws) \<Longrightarrow>
     \<exists>k < length ws. ws ! k = Some (addAll ws ! i)
        \<and> (\<forall>m < length ws. ws ! m = Some (addAll ws ! j) \<longrightarrow> k < m)"
proof (induction ws arbitrary: i j rule: rev_induct)
  case Nil
  then show ?case by (simp add: addAll_def)
next
  case (snoc w ws)
  let ?R = "addAll ws"
  from addIfTruthy_cases [of w ?R] consider
      (same) "addAll (ws @ [w]) = ?R" "\<forall>v. w = Some v \<longrightarrow> v = [] \<or> v \<in> set ?R"
    | (new) v where "w = Some v" "v \<noteq> []" "v \<notin> set ?R" "addAll (ws @ [w]) = ?R @ [v]"
    by (auto simp: addAll_snoc)
  then show ?case
  proof cases
    case same
    with snoc.prems have ij: "i < j" "j < length ?R" by simp_all
    from snoc.IH [OF ij] obtain k where k: "k < length ws" "ws ! k = Some (?R ! i)"
        "\<forall>m < length ws. ws ! m = Some (?R ! j) \<longrightarrow> k < m" by blast
    have "\<forall>m < length (ws @ [w]). (ws @ [w]) ! m = Some (?R ! j) \<longrightarrow> k < m"
    proof (intro allI impI)
      fix m assume m: "m < length (ws @ [w])" "(ws @ [w]) ! m = Some (?R ! j)"
      show "k < m"
      proof (cases "m < length ws")
        case True
        with m k(3) show ?thesis by (simp add: nth_append)
      next
        case False
        with m have "m = length ws" by simp
        with k(1) show ?thesis by simp
      qed
    qed
    with k(1,2) same(1) show ?thesis
      by (intro exI [of _ k]) (simp add: nth_append)
  next
    case new
    show ?thesis
    proof (cases "j < length ?R")
      case True
      from snoc.IH [OF snoc.prems(1) True] obtain k where k: "k < length ws" "ws ! k = Some (?R ! i)"
        "\<forall>m < length ws. ws ! m = Some (?R ! j) \<longrightarrow> k < m" by blast
      have "\<forall>m < length (ws @ [w]). (ws @ [w]) ! m = Some (?R ! j) \<longrightarrow> k < m"
      proof (intro allI impI)
        fix m assume m: "m < length (ws @ [w])" "(ws @ [w]) ! m = Some (?R ! j)"
        show "k < m"
        proof (cases "m < length ws")
          case True
          with m k(3) show ?thesis by (simp add: nth_append)
        next
          case False
          with m have "m = length ws" by simp
          with k(1) show ?thesis by simp
        qed
      qed
      with k(1,2) new(4) True snoc.prems(1) show ?thesis
        by (intro exI [of _ k]) (simp add: nth_append)
    next
      case False
      with snoc.prems new(4) have j: "j = length ?R" by simp
      with snoc.prems(1) have i: "i < length ?R" by simp
      then have "?R ! i \<in> set ?R" by simp
      then have "Some (?R ! i) \<in> set ws" by (simp add: set_addAll)
      then obtain k where k: "k < length ws" "ws ! k = Some (?R ! i)"
        by (auto simp: in_set_conv_nth)
      have vj: "addAll (ws @ [w]) ! j = v" using new(4) j by simp
      have "Some v \<notin> set ws" using new(2,3) by (simp add: set_addAll)
      then have "\<forall>m < length ws. ws ! m \<noteq> Some v"
        by (auto simp: in_set_conv_nth)
      then have "\<forall>m < length (ws @ [w]). (ws @ [w]) ! m = Some v \<longrightarrow> k < m"
        using k(1) by (auto simp: nth_append split: if_splits)
      with k i new(4) vj show ?thesis
        by (intro exI [of _ k]) (simp add: nth_append)
    qed
  qed
qed

lemma collectValues_addAll: "collectValues f p secs = addAll (f p # map f secs)"
  by (simp add: collectValues_def addAll_def foldl_map)

lemma collectValues_ordered:
  assumes "sorted (map createdAt xs)"
  shows "orderedByIntroduction f p xs (collectValues f p xs)"
  unfolding orderedByIntroduction_def
proof (intro conjI allI impI)
  show "distinct (collectValues f p xs)"
    by (simp add: collectValues_addAll distinct_addAll)
next
  fix i j
  let ?ws = "f p # map f xs"
  let ?vs = "collectValues f p xs"
  assume "i < j \<and> j < length ?vs"
  then have ij: "i < j" "j < length (addAll ?ws)" by (simp_all add: collectValues_addAll)
  from addAll_order [OF ij] obtain k where k: "k < length ?ws" "?ws ! k = Some (?vs ! i)"
      "\<forall>m < length ?ws. ?ws ! m = Some (?vs ! j) \<longrightarrow> k < m"
    unfolding collectValues_addAll by blast
  show "f p \<noteq> Some (?vs ! j)"
  proof
    assume "f p = Some (?vs ! j)"
    then have "?ws ! 0 = Some (?vs ! j)" by simp
    then have "k < 0" using k(3) [rule_format, of 0] by simp
    then show False by simp
  qed
  show "f p = Some (?vs ! i)
        \<or> (\<exists>ci \<in> set xs. f ci = Some (?vs ! i)
              \<and> (\<forall>cj \<in> set xs. f cj = Some (?vs ! j) \<longrightarrow> createdAt ci \<le> createdAt cj))"
  proof (cases k)
    case 0
    with k(2) show ?thesis by simp
  next
    case (Suc k')
    with k(1,2) have k': "k' < length xs" "f (xs ! k') = Some (?vs ! i)" by simp_all
    have "\<forall>cj \<in> set xs. f cj = Some (?vs ! j) \<longrightarrow> createdAt (xs ! k') \<le> createdAt cj"
    proof (intro ballI impI)
      fix cj assume cj: "cj \<in> set xs" "f cj = Some (?vs ! j)"
      then obtain m' where m': "m' < length xs" "xs ! m' = cj" by (auto simp: in_set_conv_nth)
      with cj(2) have "Suc m' < length ?ws" "?ws ! Suc m' = Some (?vs ! j)" by simp_all
      with k(3) have "k < Suc m'" by blast
      with Suc have "k' \<le> m'" by simp
      then have "map createdAt xs ! k' \<le> map createdAt xs ! m'"
        using sorted_nth_mono [OF assms, of k' m'] m'(1) by simp
      with m' k'(1) show "createdAt (xs ! k') \<le> createdAt cj"
        by simp
    qed
    moreover have "xs ! k' \<in> set xs" using k'(1) by simp
    ultimately show ?thesis using k'(2) by blast
  qed
qed


lemma orderedByIntroduction_set:
  "set xs = set ys \<Longrightarrow> orderedByIntroduction f p xs vs = orderedByIntroduction f p ys vs"
  by (simp add: orderedByIntroduction_def)

lemma consolidateContactInfo_ordered:
  assumes "consolidateContactInfo pid s = Inr resp"
  shows "orderedResponse (getAllLinkedContacts pid s) resp"
proof -
  let ?chain = "getAllLinkedContacts pid s"
  let ?secs = "filter isSecondary ?chain"
  let ?sorted = "sort_key createdAt ?secs"
  from assms obtain p where p: "find isPrimary ?chain = Some p"
    by (cases "find isPrimary ?chain") (simp_all add: consolidateContactInfo_def Let_def)
  with assms have resp: "resp = \<lparr>primaryContactId = contactId p,
                      emails = collectValues email p ?sorted,
                      phoneNumbers = collectValues phoneNumber p ?sorted,
                      secondaryContactIds = map contactId ?sorted\<rparr>"
    by (simp add: consolidateContactInfo_def Let_def)
  from find_SomeD [OF p] have pin: "p \<in> set ?chain" "isPrimary p" by auto
  have so: "sorted (map createdAt ?sorted)" by simp
  have e: "orderedByIntroduction email p ?secs (emails resp)"
    using collectValues_ordered [OF so, of email p]
    by (simp add: resp orderedByIntroduction_set [of ?secs ?sorted])
  have ph: "orderedByIntroduction phoneNumber p ?secs (phoneNumbers resp)"
    using collectValues_ordered [OF so, of phoneNumber p]
    by (simp add: resp orderedByIntroduction_set [of ?secs ?sorted])
  have "mset ?sorted = mset ?secs \<and> sorted (map createdAt ?sorted)
        \<and> secondaryContactIds resp = map contactId ?sorted"
    by (simp add: resp)
  then have "\<exists>secs. mset secs = mset ?secs \<and> sorted (map createdAt secs)
              \<and> secondaryContactIds resp = map contactId secs" by blast
  with pin e ph show ?thesis
    unfolding orderedResponse_def using resp by auto
qed

lemma consolidateAndReturn_Inr:
  "consolidateAndReturn pid s = Inr resp \<Longrightarrow> consolidateContactInfo pid s = Inr resp"
  by (simp add: consolidateAndReturn_def split: sum.splits)

lemma find_append_None: "find P xs = None \<Longrightarrow> find P (xs @ ys) = find P ys"
  by (induction xs) (auto split: if_splits)

lemma handleNoExistingContacts_consolidated:
  assumes "storeIntegrity s" and "handleNoExistingContacts now e p s = (Inr resp, s')"
  shows "consolidateContactInfo (nextId s) s' = Inr resp"
proof -
  let ?c = "\<lparr>contactId = nextId s, email = orNullOpt e, phoneNumber = orNullOpt p,
             linkedId = None, linkPrecedence = PRIMARY, createdAt = now, deletedAt = None\<rparr>"
  from assms(2) have s': "s' = \<lparr>rows = rows s @ [?c], nextId = Suc (nextId s)\<rparr>"
    and resp: "resp = \<lparr>primaryContactId = nextId s,
                emails = (case orNullOpt e of None \<Rightarrow> [] | Some v \<Rightarrow> (if v = [] then [] else [v])),
                phoneNumbers = (case orNullOpt p of None \<Rightarrow> [] | Some v \<Rightarrow> (if v = [] then [] else [v])),
                secondaryContactIds = []\<rparr>"
    by (auto simp: handleNoExistingContacts_def createPrimaryContact_def createContact_def Let_def)
  from assms(1) have fresh: "\<forall>x \<in> set (rows s). contactId x \<noteq> nextId s \<and> linkedId x \<noteq> Some (nextId s)"
    by (auto simp: storeIntegrity_def list_all_iff split: option.splits)
  then have "find (\<lambda>c. contactId c = nextId s \<and> deletedAt c = None) (rows s) = None"
    by (auto simp: find_None_iff)
  then have f: "find (\<lambda>c. contactId c = nextId s \<and> deletedAt c = None) (rows s') = Some ?c"
    by (simp add: s' find_append_None)
  have flt: "filter (\<lambda>c. (contactId c = nextId s \<or> linkedId c = Some (nextId s)) \<and> deletedAt c = None)
               (rows s') = [?c]"
    using fresh by (simp add: s' filter_empty_conv)
  have chain: "getAllLinkedContacts (nextId s) s' = [?c]"
    using f flt by (simp add: getAllLinkedContacts_def orderByPrecedenceCreatedAt_def)
  have a: "\<And>w. addIfTruthy w [] = (case w of None \<Rightarrow> [] | Some v \<Rightarrow> (if v = [] then [] else [v]))"
    by (simp add: addIfTruthy_def setAdd_def split: option.splits)
  show ?thesis
    by (simp add: consolidateContactInfo_def chain resp isPrimary_def isSecondary_def
        collectValues_def a)
qed


lemma updateContactLinkage_Inl: "updateContactLinkage i u s = (Inl err, s') \<Longrightarrow> s' = s"
  by (auto simp: updateContactLinkage_def split: option.splits)

lemma handleExactDuplicate_consolidated:
  "handleExactDuplicate sr s = (Inr resp, s') \<Longrightarrow> \<exists>pid. consolidateContactInfo pid s' = Inr resp"
  by (auto simp: handleExactDuplicate_def split: option.splits dest: consolidateAndReturn_Inr)

lemma handleSinglePrimaryContact_consolidated:
  "handleSinglePrimaryContact now sr e p s = (Inr resp, s')
   \<Longrightarrow> \<exists>pid. consolidateContactInfo pid s' = Inr resp"
  by (auto simp: handleSinglePrimaryContact_def
           split: option.splits if_splits prod.splits dest: consolidateAndReturn_Inr)

lemma handleMultiplePrimaryContacts_consolidated:
  "handleMultiplePrimaryContacts now cs e p s = (Inr resp, s')
   \<Longrightarrow> \<exists>pid. consolidateContactInfo pid s' = Inr resp"
  by (auto simp: handleMultiplePrimaryContacts_def Let_def
           split: list.splits if_splits dest: consolidateAndReturn_Inr)

lemma handleExistingChain_consolidated:
  assumes "storeIntegrity s" and "handleExistingChain now sr e p s = (Inr resp, s')"
  shows "\<exists>pid. consolidateContactInfo pid s' = Inr resp"
proof (cases "searchPrimary sr")
  case (Some pc)
  with assms(2) show ?thesis
    by (auto simp: handleExistingChain_def Let_def split: if_splits dest: consolidateAndReturn_Inr)
next
  case None
  note sp = this
  show ?thesis
  proof (cases "reduceOldest (contacts sr)")
    case None
    with sp assms(2) have "handleNoExistingContacts now e p s = (Inr resp, s')"
      by (simp add: handleExistingChain_def)
    from handleNoExistingContacts_consolidated [OF assms(1) this] show ?thesis by blast
  next
    case (Some oldest)
    let ?u = "\<lparr>upd_phoneNumber = None, upd_email = None, upd_linkedId = Some None,
                upd_linkPrecedence = Some PRIMARY\<rparr>"
    obtain res s1 where u: "updateContactLinkage (contactId oldest) ?u s = (res, s1)"
      by (cases "updateContactLinkage (contactId oldest) ?u s")
    show ?thesis
    proof (cases res)
      case (Inl err)
      with u have "s1 = s" by (auto dest: updateContactLinkage_Inl)
      with sp Some u Inl assms(2) have "handleNoExistingContacts now e p s = (Inr resp, s')"
        by (simp add: handleExistingChain_def)
      from handleNoExistingContacts_consolidated [OF assms(1) this] show ?thesis by blast
    next
      case (Inr d)
      with sp Some u assms(2) have "consolidateAndReturn (contactId d) s1 = Inr resp \<and> s' = s1"
        by (auto simp: handleExistingChain_def)
      then show ?thesis by (auto dest: consolidateAndReturn_Inr)
    qed
  qed
qed

lemma identifyContact_consolidated:
  assumes "storeIntegrity s" and "identifyContact now r s = (Inr resp, s')"
  shows "\<exists>pid. consolidateContactInfo pid s' = Inr resp"
proof -
  let ?sr = "findExistingContacts (orNull (req_email r)) (orNull (req_phoneNumber r)) s"
  let ?e = "orNull (req_email r)" and ?p = "orNull (req_phoneNumber r)"
  from assms(2) consider
      "handleNoExistingContacts now ?e ?p s = (Inr resp, s')"
    | "handleExactDuplicate ?sr s = (Inr resp, s')"
    | "handleSinglePrimaryContact now ?sr ?e ?p s = (Inr resp, s')"
    | "handleMultiplePrimaryContacts now (contacts ?sr) ?e ?p s = (Inr resp, s')"
    | "handleExistingChain now ?sr ?e ?p s = (Inr resp, s')"
    by (simp add: identifyContact_def Let_def split: if_splits)
  then show ?thesis
  proof cases
    case 1
    from handleNoExistingContacts_consolidated [OF assms(1) 1] show ?thesis by blast
  next
    case 2
    then show ?thesis by (rule handleExactDuplicate_consolidated)
  next
    case 3
    then show ?thesis by (rule handleSinglePrimaryContact_consolidated)
  next
    case 4
    then show ?thesis by (rule handleMultiplePrimaryContacts_consolidated)
  next
    case 5
    from handleExistingChain_consolidated [OF assms(1) 5] show ?thesis .
  qed
qed


text \<open>
  Claim C7. On a store whose ids and links come from the id sequence, every successful
  response of \<open>identifyContact\<close> is the consolidated view of a chain of the resulting
  store and is in order for that chain: the
  emails and the phone numbers have no duplicates and are ordered by the creation time of
  the contact that introduced them, the primary's own values first, and
  \<open>secondaryContactIds\<close> lists all the secondaries of the chain by ascending creation time.
\<close>

theorem C7_response_ordered_by_introduction:
  assumes "storeIntegrity s" and "identifyContact now r s = (Inr resp, s')"
  shows "\<exists>pid. consolidateContactInfo pid s' = Inr resp
               \<and> orderedResponse (getAllLinkedContacts pid s') resp"
proof -
  from identifyContact_consolidated [OF assms] obtain pid
    where c: "consolidateContactInfo pid s' = Inr resp" by blast
  from consolidateContactInfo_ordered [OF c] c show ?thesis by blast
qed


theorem C7_response_order_witness:
  "storeIntegrity branchDStore
   \<and> identifyContact 4 (request ''b'' ''3'') branchDStore
      = (Inr \<lparr>primaryContactId = 2, emails = [''b''], phoneNumbers = [''2'', ''3''],
              secondaryContactIds = [3]\<rparr>, branchDStore)
   \<and> (\<exists>pid. consolidateContactInfo pid branchDStore
               = Inr \<lparr>primaryContactId = 2, emails = [''b''], phoneNumbers = [''2'', ''3''],
                      secondaryContactIds = [3]\<rparr>
            \<and> orderedResponse (getAllLinkedContacts pid branchDStore)
                 \<lparr>primaryContactId = 2, emails = [''b''], phoneNumbers = [''2'', ''3''],
                  secondaryContactIds = [3]\<rparr>)"
proof -
  have h1: "storeIntegrity branchDStore" by code_simp
  have h2: "identifyContact 4 (request ''b'' ''3'') branchDStore
      = (Inr \<lparr>primaryContactId = 2, emails = [''b''], phoneNumbers = [''2'', ''3''],
              secondaryContactIds = [3]\<rparr>, branchDStore)" by code_simp
  from C7_response_ordered_by_introduction [OF h1 h2] h1 h2 show ?thesis by blast
qed

section \<open>Groups of linkable contacts\<close>

lemma dfsPost_Nil: "dfsPost base cs [] st st"
  unfolding dfsPost_def by (intro exI [of _ "[]"]) simp

lemma dfsPost_skip:
  assumes "dfsPost base cs rest st st'" and "contactId c \<in> snd st \<or> \<not> shouldLink base c"
  shows "dfsPost base cs (c # rest) st st'"
  using assms unfolding dfsPost_def by auto

lemma dfsPost_visit:
  assumes base: "base \<in> set cs" and c: "c \<in> set cs" "contactId c \<notin> processed" "shouldLink base c"
    and inner: "dfsPost c cs cs (grp @ [c], insert (contactId c) processed) st1"
    and outer: "dfsPost base cs rest st1 st2"
  shows "dfsPost base cs (c # rest) (grp, processed) st2"
proof -
  from inner obtain new1 where n1: "fst st1 = (grp @ [c]) @ new1"
      "snd st1 = insert (contactId c) processed \<union> contactId ` set new1"
      "distinct (map contactId new1)" "set new1 \<subseteq> set cs"
      "contactId ` set new1 \<inter> insert (contactId c) processed = {}"
      "\<forall>x \<in> set new1. (c, x) \<in> (linkRel cs)\<^sup>+"
      "\<forall>y \<in> set cs. shouldLink c y \<longrightarrow> contactId y \<in> snd st1"
      "\<forall>x \<in> set new1. \<forall>y \<in> set cs. shouldLink x y \<longrightarrow> contactId y \<in> snd st1"
    unfolding dfsPost_def by auto
  from outer obtain new2 where n2: "fst st2 = fst st1 @ new2"
      "snd st2 = snd st1 \<union> contactId ` set new2"
      "distinct (map contactId new2)" "set new2 \<subseteq> set cs"
      "contactId ` set new2 \<inter> snd st1 = {}"
      "\<forall>x \<in> set new2. (base, x) \<in> (linkRel cs)\<^sup>+"
      "\<forall>c \<in> set rest. shouldLink base c \<longrightarrow> contactId c \<in> snd st2"
      "\<forall>x \<in> set new2. \<forall>y \<in> set cs. shouldLink x y \<longrightarrow> contactId y \<in> snd st2"
    unfolding dfsPost_def by auto
  let ?new = "c # new1 @ new2"
  have bc: "(base, c) \<in> linkRel cs" using base c by (simp add: linkRel_def)
  have sub: "snd st1 \<subseteq> snd st2" using n2(2) by auto
  have 1: "fst st2 = fst (grp, processed) @ ?new" using n1(1) n2(1) by simp
  have 2: "snd st2 = snd (grp, processed) \<union> contactId ` set ?new" using n1(2) n2(2) by auto
  have 3: "distinct (map contactId ?new)"
    using n1(3,5) n2(3,5) n1(2) by auto
  have 4: "set ?new \<subseteq> set cs" using c(1) n1(4) n2(4) by auto
  have 5: "contactId ` set ?new \<inter> snd (grp, processed) = {}"
    using c(2) n1(5) n2(5) n1(2) by auto
  have 6: "\<forall>x \<in> set ?new. (base, x) \<in> (linkRel cs)\<^sup>+"
  proof
    fix x assume "x \<in> set ?new"
    then consider "x = c" | "x \<in> set new1" | "x \<in> set new2" by auto
    then show "(base, x) \<in> (linkRel cs)\<^sup>+"
    proof cases
      case 1 with bc show ?thesis by auto
    next
      case 2
      with n1(6) have "(c, x) \<in> (linkRel cs)\<^sup>+" by simp
      with bc show ?thesis by (rule trancl_into_trancl2)
    next
      case 3 with n2(6) show ?thesis by simp
    qed
  qed
  have 7: "\<forall>d \<in> set (c # rest). shouldLink base d \<longrightarrow> contactId d \<in> snd st2"
    using n2(7) n1(2) sub by auto
  have 8: "\<forall>x \<in> set ?new. \<forall>y \<in> set cs. shouldLink x y \<longrightarrow> contactId y \<in> snd st2"
    using n1(7,8) n2(8) sub by auto
  show ?thesis
    unfolding dfsPost_def
    using 1 2 3 4 5 6 7 8 by (intro exI [of _ ?new]) blast
qed

lemma findLinkedContacts_post:
  "base \<in> set cs \<Longrightarrow> set rest \<subseteq> set cs \<Longrightarrow> dfsPost base cs rest st (findLinkedContacts base cs rest st)"
proof (induction base cs rest st rule: findLinkedContacts.induct)
  case (1 baseContact allContacts st)
  show ?case by (simp add: dfsPost_Nil)
next
  case (2 baseContact allContacts c rest grp processed)
  have rest: "set rest \<subseteq> set allContacts" and cin: "c \<in> set allContacts"
    using "2.prems"(2) by auto
  show ?case
  proof (cases "contactId c \<in> processed")
    case True
    with "2.IH"(1) [OF True "2.prems"(1) rest] show ?thesis
      by (simp add: dfsPost_skip)
  next
    case False
    show ?thesis
    proof (cases "shouldLink baseContact c")
      case True
      let ?st1 = "findLinkedContacts c allContacts allContacts (grp @ [c], insert (contactId c) processed)"
      have inner: "dfsPost c allContacts allContacts (grp @ [c], insert (contactId c) processed) ?st1"
        using "2.IH"(2) [OF False True cin] by simp
      have outer: "dfsPost baseContact allContacts rest ?st1 (findLinkedContacts baseContact allContacts rest ?st1)"
        using "2.IH"(3) [OF False True "2.prems"(1) rest] .
      from dfsPost_visit [OF "2.prems"(1) cin False True inner outer] False True
      show ?thesis by simp
    next
      case nl: False
      from "2.IH"(4) [OF False nl "2.prems"(1) rest] False nl show ?thesis
        by (simp add: dfsPost_skip)
    qed
  qed
qed


lemma shouldLink_sym: "shouldLink a b = shouldLink b a"
  by (auto simp: shouldLink_def hasSharedEmail_def hasSharedPhone_def)

lemma sym_linkRel: "sym (linkRel cs)"
  by (auto simp: sym_def linkRel_def shouldLink_sym)

lemma component_refl: "a \<in> component cs a"
  by (simp add: component_def)

lemma component_subset: "a \<in> set cs \<Longrightarrow> component cs a \<subseteq> set cs"
proof
  fix b assume a: "a \<in> set cs" and "b \<in> component cs a"
  then have "(a, b) \<in> (linkRel cs)\<^sup>*" by (simp add: component_def)
  then show "b \<in> set cs"
    by (induction rule: rtrancl_induct) (auto simp: a linkRel_def)
qed

lemma component_sym: "b \<in> component cs a \<Longrightarrow> a \<in> component cs b"
  using sym_rtrancl [OF sym_linkRel, of cs] by (auto simp: component_def sym_def)

lemma component_eq:
  assumes "b \<in> component cs a"
  shows "component cs b = component cs a"
proof -
  have ab: "(a, b) \<in> (linkRel cs)\<^sup>*" using assms by (simp add: component_def)
  have ba: "(b, a) \<in> (linkRel cs)\<^sup>*" using component_sym [OF assms] by (simp add: component_def)
  show ?thesis
    unfolding component_def
    using ab ba by (auto intro: rtrancl_trans)
qed

lemma trivial_component:
  assumes "\<not> linksToAnother cs a"
  shows "component cs a = {a}"
proof -
  have "b = a" if "(a, b) \<in> (linkRel cs)\<^sup>*" for b
    using that
  proof (induction rule: rtrancl_induct)
    case base
    show ?case by simp
  next
    case (step y z)
    then have "z \<in> set cs" "shouldLink a z" by (auto simp: linkRel_def)
    with assms show ?case by (auto simp: linksToAnother_def)
  qed
  then show ?thesis by (auto simp: component_def)
qed

lemma linksToAnother_component:
  assumes "a \<in> set cs" "linksToAnother cs a"
  shows "\<exists>b \<in> component cs a. b \<noteq> a"
proof -
  from assms(2) obtain b where b: "b \<in> set cs" "b \<noteq> a" "shouldLink a b"
    by (auto simp: linksToAnother_def)
  with assms(1) have "(a, b) \<in> linkRel cs" by (simp add: linkRel_def)
  then have "b \<in> component cs a" by (auto simp: component_def)
  with b(2) show ?thesis by blast
qed

lemma component_other_linksToAnother:
  assumes "b \<in> component cs a" "b \<noteq> a"
  shows "linksToAnother cs a \<and> linksToAnother cs b"
proof -
  have "linksToAnother cs a" using trivial_component [of cs a] assms by auto
  moreover have "linksToAnother cs b"
  proof (rule ccontr)
    assume "\<not> linksToAnother cs b"
    then have "component cs b = {b}" by (rule trivial_component)
    with component_sym [OF assms(1)] assms(2) show False by simp
  qed
  ultimately show ?thesis by simp
qed

lemma ids_member:
  assumes "distinct (map contactId cs)" "x \<in> set cs" "set ys \<subseteq> set cs" "contactId x \<in> contactId ` set ys"
  shows "x \<in> set ys"
proof -
  from assms(4) obtain y where y: "y \<in> set ys" "contactId y = contactId x" by auto
  with assms(3) have "y \<in> set cs" by auto
  with assms(1,2) y(2) have "y = x" by (meson distinct_map inj_onD)
  with y(1) show ?thesis by simp
qed

lemma group_step:
  assumes di: "distinct (map contactId cs)"
    and inv: "loopInv cs (groups, processed)"
    and c: "c \<in> set cs" "contactId c \<notin> processed"
    and post: "dfsPost c cs cs ([c], insert (contactId c) processed) (grp, processed')"
  shows "loopInv cs (if length grp > 1 then groups @ [grp] else groups, processed')
       \<and> insert (contactId c) processed \<subseteq> processed'"
proof -
  from post obtain new where n: "grp = [c] @ new"
      "processed' = insert (contactId c) processed \<union> contactId ` set new"
      "distinct (map contactId new)" "set new \<subseteq> set cs"
      "contactId ` set new \<inter> insert (contactId c) processed = {}"
      "\<forall>x \<in> set new. (c, x) \<in> (linkRel cs)\<^sup>+"
      "\<forall>y \<in> set cs. shouldLink c y \<longrightarrow> contactId y \<in> processed'"
      "\<forall>x \<in> set new. \<forall>y \<in> set cs. shouldLink x y \<longrightarrow> contactId y \<in> processed'"
    unfolding dfsPost_def by auto
  from inv have closed: "\<forall>x \<in> set cs. contactId x \<in> processed \<longrightarrow>
          (\<forall>y \<in> set cs. shouldLink x y \<longrightarrow> contactId y \<in> processed)"
    and dc: "distinct (concat groups)"
    and sub: "set (concat groups) \<subseteq> {x \<in> set cs. contactId x \<in> processed}"
    and sets: "set ` set groups
          = {component cs a | a. a \<in> set cs \<and> contactId a \<in> processed \<and> linksToAnother cs a}"
    unfolding loopInv_def fst_conv snd_conv by blast+
  have grp_cs: "set grp \<subseteq> set cs" using n(1,4) c(1) by auto
  have grp_ids: "contactId ` set grp \<inter> processed = {}" using n(1,5) c(2) by auto
  have p': "processed' = processed \<union> contactId ` set grp" using n(1,2) by auto
  have nbr: "\<forall>x \<in> set grp. \<forall>y \<in> set cs. shouldLink x y \<longrightarrow> contactId y \<in> processed'"
    using n(1,7,8) by auto
  have in_grp: "x \<in> set grp" if "x \<in> set cs" "contactId x \<in> processed'" "contactId x \<notin> processed" for x
    using ids_member [OF di that(1) grp_cs] that(2,3) p' by auto
  \<comment> \<open>the group is the connected component of c\<close>
  have sub1: "set grp \<subseteq> component cs c"
  proof
    fix x assume "x \<in> set grp"
    with n(1) consider "x = c" | "x \<in> set new" by auto
    then show "x \<in> component cs c"
    proof cases
      case 1 then show ?thesis by (simp add: component_refl)
    next
      case 2
      with n(6) have "(c, x) \<in> (linkRel cs)\<^sup>+" by simp
      then show ?thesis by (simp add: component_def trancl_into_rtrancl)
    qed
  qed
  have sub2: "component cs c \<subseteq> set grp"
  proof
    fix b assume "b \<in> component cs c"
    then have "(c, b) \<in> (linkRel cs)\<^sup>*" by (simp add: component_def)
    then show "b \<in> set grp"
    proof (induction rule: rtrancl_induct)
      case base
      show ?case using n(1) by simp
    next
      case (step x y)
      from step(2) have xy: "x \<in> set cs" "y \<in> set cs" "shouldLink x y" by (auto simp: linkRel_def)
      with nbr step(3) have y': "contactId y \<in> processed'" by blast
      have "contactId y \<notin> processed"
      proof
        assume "contactId y \<in> processed"
        with closed xy have "contactId x \<in> processed" using shouldLink_sym by blast
        with step(3) grp_ids show False by auto
      qed
      with in_grp [OF xy(2) y'] show ?case by simp
    qed
  qed
  have grp_eq: "set grp = component cs c" using sub1 sub2 by auto
  \<comment> \<open>the group has more than one member exactly when c links to another contact\<close>
  have len: "length grp > 1 \<longleftrightarrow> linksToAnother cs c"
  proof
    assume "length grp > 1"
    with n(1) obtain x where x: "x \<in> set new" by (cases new) auto
    with n(5) have "x \<noteq> c" by auto
    moreover have "x \<in> component cs c" using x n(1) sub1 by auto
    ultimately show "linksToAnother cs c" using component_other_linksToAnother by blast
  next
    assume "linksToAnother cs c"
    from linksToAnother_component [OF c(1) this] obtain b where "b \<in> component cs c" "b \<noteq> c" by blast
    with grp_eq n(1) have "b \<in> set new" by auto
    with n(1) show "length grp > 1" by (cases new) auto
  qed
  \<comment> \<open>the invariant\<close>
  have closed': "\<forall>x \<in> set cs. contactId x \<in> processed' \<longrightarrow>
          (\<forall>y \<in> set cs. shouldLink x y \<longrightarrow> contactId y \<in> processed')"
  proof (intro ballI impI)
    fix x y assume x: "x \<in> set cs" "contactId x \<in> processed'" and y: "y \<in> set cs" "shouldLink x y"
    show "contactId y \<in> processed'"
    proof (cases "contactId x \<in> processed")
      case True
      with closed x(1) y have "contactId y \<in> processed" by blast
      then show ?thesis by (simp add: p')
    next
      case False
      from in_grp [OF x False] nbr y show ?thesis by blast
    qed
  qed
  have dgrp: "distinct grp"
    using n(1,3,5) by (auto simp: distinct_map)
  have disj: "set grp \<inter> set (concat groups) = {}"
    using sub grp_ids by auto
  have dc': "distinct (concat (if length grp > 1 then groups @ [grp] else groups))"
    using dc dgrp disj by auto
  have sub': "set (concat (if length grp > 1 then groups @ [grp] else groups))
        \<subseteq> {x \<in> set cs. contactId x \<in> processed'}"
    using sub grp_cs p' by auto
  have comp_new: "component cs a = component cs c \<and> (linksToAnother cs a \<longleftrightarrow> linksToAnother cs c)"
    if "a \<in> set grp" for a
  proof -
    from that grp_eq have a: "a \<in> component cs c" by simp
    then have "component cs a = component cs c" by (rule component_eq)
    moreover have "linksToAnother cs a \<longleftrightarrow> linksToAnother cs c"
      using component_other_linksToAnother [OF a] by (cases "a = c") auto
    ultimately show ?thesis by simp
  qed
  have sets': "set ` set (if length grp > 1 then groups @ [grp] else groups)
          = {component cs a | a. a \<in> set cs \<and> contactId a \<in> processed' \<and> linksToAnother cs a}"
    (is "?L = ?R")
  proof
    show "?L \<subseteq> ?R"
    proof
      fix g assume "g \<in> ?L"
      then consider "g \<in> set ` set groups" | "length grp > 1" "g = set grp"
        by (auto split: if_splits)
      then show "g \<in> ?R"
      proof cases
        case 1
        with sets show ?thesis by (auto simp: p')
      next
        case 2
        with len grp_eq c(1) n(2) show ?thesis by auto
      qed
    qed
    show "?R \<subseteq> ?L"
    proof
      fix g assume "g \<in> ?R"
      then obtain a where a: "g = component cs a" "a \<in> set cs" "contactId a \<in> processed'" "linksToAnother cs a"
        by auto
      show "g \<in> ?L"
      proof (cases "contactId a \<in> processed")
        case True
        with a sets have "g \<in> set ` set groups" by auto
        then show ?thesis by auto
      next
        case False
        from comp_new [OF in_grp [OF a(2,3) False]] a(1,4) len grp_eq
        have "length grp > 1" "g = set grp" by auto
        then show ?thesis by simp
      qed
    qed
  qed
  have "insert (contactId c) processed \<subseteq> processed'" using n(2) by auto
  with closed' dc' sub' sets' show ?thesis
    unfolding loopInv_def fst_conv snd_conv by blast
qed

lemma groupLoop_inv:
  assumes "distinct (map contactId cs)"
  shows "set rest \<subseteq> set cs \<Longrightarrow> loopInv cs st \<Longrightarrow>
     loopInv cs (groupLoop cs rest st) \<and> snd st \<subseteq> snd (groupLoop cs rest st)
     \<and> contactId ` set rest \<subseteq> snd (groupLoop cs rest st)"
proof (induction rest arbitrary: st)
  case Nil
  then show ?case by simp
next
  case (Cons c rest)
  obtain groups processed where st: "st = (groups, processed)" by (cases st)
  have rest: "set rest \<subseteq> set cs" and cin: "c \<in> set cs" using Cons.prems(1) by auto
  show ?case
  proof (cases "contactId c \<in> processed")
    case True
    from Cons.IH [OF rest Cons.prems(2)] True st show ?thesis by auto
  next
    case False
    obtain grp processed' where d: "findLinkedContacts c cs cs ([c], insert (contactId c) processed) = (grp, processed')"
      by (cases "findLinkedContacts c cs cs ([c], insert (contactId c) processed)")
    have post: "dfsPost c cs cs ([c], insert (contactId c) processed) (grp, processed')"
      using findLinkedContacts_post [of c cs cs "([c], insert (contactId c) processed)"] cin d by simp
    let ?st' = "(if length grp > 1 then groups @ [grp] else groups, processed')"
    from group_step [OF assms Cons.prems(2) [unfolded st] cin False post]
    have inv': "loopInv cs ?st'" and sub: "insert (contactId c) processed \<subseteq> processed'" by auto
    from Cons.IH [OF rest inv']
    have "loopInv cs (groupLoop cs rest ?st')" "processed' \<subseteq> snd (groupLoop cs rest ?st')"
      "contactId ` set rest \<subseteq> snd (groupLoop cs rest ?st')" by auto
    moreover have "groupLoop cs (c # rest) st = groupLoop cs rest ?st'"
      using False d st by simp
    ultimately show ?thesis using sub st by auto
  qed
qed

lemma groupLinkableContacts_components:
  assumes "distinct (map contactId cs)"
  shows "set ` set (groupLinkableContacts cs) = {component cs a | a. a \<in> set cs \<and> linksToAnother cs a}"
    and "distinct (concat (groupLinkableContacts cs))"
    and "set (concat (groupLinkableContacts cs)) \<subseteq> set cs"
proof -
  have "loopInv cs ([], {})" by (simp add: loopInv_def)
  from groupLoop_inv [OF assms subset_refl this]
  have inv: "loopInv cs (groupLoop cs cs ([], {}))"
    and all: "contactId ` set cs \<subseteq> snd (groupLoop cs cs ([], {}))" by auto
  let ?st = "groupLoop cs cs ([], {})"
  from inv have dc: "distinct (concat (fst ?st))"
    and sub: "set (concat (fst ?st)) \<subseteq> {x \<in> set cs. contactId x \<in> snd ?st}"
    and sets: "set ` set (fst ?st)
          = {component cs a | a. a \<in> set cs \<and> contactId a \<in> snd ?st \<and> linksToAnother cs a}"
    unfolding loopInv_def by blast+
  have "{component cs a | a. a \<in> set cs \<and> contactId a \<in> snd ?st \<and> linksToAnother cs a}
        = {component cs a | a. a \<in> set cs \<and> linksToAnother cs a}"
    using all by blast
  with sets show "set ` set (groupLinkableContacts cs) = {component cs a | a. a \<in> set cs \<and> linksToAnother cs a}"
    by (simp only: groupLinkableContacts_def)
  from dc show "distinct (concat (groupLinkableContacts cs))"
    by (simp only: groupLinkableContacts_def)
  from sub show "set (concat (groupLinkableContacts cs)) \<subseteq> set cs"
    unfolding groupLinkableContacts_def by blast
qed

lemma count_groups_one:
  "distinct (concat G) \<Longrightarrow> g \<in> set G \<Longrightarrow> a \<in> set g \<Longrightarrow> length (filter (\<lambda>g. a \<in> set g) G) = 1"
proof (induction G)
  case Nil
  then show ?case by simp
next
  case (Cons h G)
  show ?case
  proof (cases "a \<in> set h")
    case True
    with Cons.prems(1) have "\<forall>k \<in> set G. a \<notin> set k" by auto
    then have "filter (\<lambda>g. a \<in> set g) G = []" by (simp add: filter_empty_conv)
    with True show ?thesis by simp
  next
    case False
    with Cons.prems have "g \<in> set G" "distinct (concat G)" by auto
    from Cons.IH [OF this(2,1) Cons.prems(3)] False show ?thesis by simp
  qed
qed

lemma linkRel_set: "set cs' = set cs \<Longrightarrow> linkRel cs' = linkRel cs"
  by (simp add: linkRel_def)



text \<open>
  Claim C8, as the code has it. On contacts with pairwise different ids,
  \<open>groupLinkableContacts\<close> returns the connected components of the shared-attribute graph
  that have more than one member: a contact that links to another contact is in exactly one
  group, a contact that links to no other is in none, every group is the component of each
  of its members, and the groups of a permutation of the input are the same sets.
\<close>

theorem C8_groups_are_components_with_links:
  assumes "distinct (map contactId cs)"
  shows "(\<forall>a \<in> set cs. length (filter (\<lambda>g. a \<in> set g) (groupLinkableContacts cs))
                        = (if linksToAnother cs a then 1 else 0))
       \<and> (\<forall>g \<in> set (groupLinkableContacts cs). \<forall>a \<in> set g. set g = component cs a)
       \<and> (\<forall>cs'. mset cs' = mset cs \<longrightarrow>
             set ` set (groupLinkableContacts cs') = set ` set (groupLinkableContacts cs))"
proof (intro conjI ballI allI impI)
  note G = groupLinkableContacts_components [OF assms]
  {
    fix g a assume g: "g \<in> set (groupLinkableContacts cs)" and a: "a \<in> set g"
    from g G(1) obtain b where b: "set g = component cs b" "b \<in> set cs" "linksToAnother cs b"
      by blast
    with a have "a \<in> component cs b" by simp
    from component_eq [OF this] b(1) show "set g = component cs a" by simp
  }
  note comp = this
  {
    fix a assume a: "a \<in> set cs"
    show "length (filter (\<lambda>g. a \<in> set g) (groupLinkableContacts cs))
            = (if linksToAnother cs a then 1 else 0)"
    proof (cases "linksToAnother cs a")
      case True
      with a G(1) have "component cs a \<in> set ` set (groupLinkableContacts cs)" by blast
      then obtain g where g: "g \<in> set (groupLinkableContacts cs)" "set g = component cs a" by auto
      then have "a \<in> set g" by (simp add: component_refl)
      from count_groups_one [OF G(2) g(1) this] True show ?thesis by simp
    next
      case False
      have "a \<notin> set g" if g: "g \<in> set (groupLinkableContacts cs)" for g
      proof
        assume ag: "a \<in> set g"
        from g G(1) obtain b where b: "set g = component cs b" "linksToAnother cs b" by blast
        from ag b(1) have ab: "a \<in> component cs b" by simp
        show False
        proof (cases "a = b")
          case True with b(2) False show ?thesis by simp
        next
          case ne: False
          from component_other_linksToAnother [OF ab ne] False show ?thesis by simp
        qed
      qed
      then have "filter (\<lambda>g. a \<in> set g) (groupLinkableContacts cs) = []"
        by (simp add: filter_empty_conv)
      with False show ?thesis by simp
    qed
  }
  {
    fix cs' assume m: "mset cs' = mset cs"
    then have s: "set cs' = set cs" by (rule mset_eq_setD)
    from m have "mset (map contactId cs') = mset (map contactId cs)" by simp
    with assms have d: "distinct (map contactId cs')"
      by (metis mset_eq_imp_distinct_iff)
    have c: "component cs' = component cs" "linksToAnother cs' = linksToAnother cs"
      by (auto simp: component_def linksToAnother_def linkRel_set [OF s] s fun_eq_iff)
    show "set ` set (groupLinkableContacts cs') = set ` set (groupLinkableContacts cs)"
      unfolding groupLinkableContacts_components(1) [OF d] G(1) by (simp add: c s)
  }
qed


theorem C8_groups_witness:
  "distinct (map contactId exampleContacts)
   \<and> groupLinkableContacts exampleContacts
       = [[primaryRow 1 ''a'' ''1'' 1, secondaryRow 2 ''a'' ''2'' 1 2, secondaryRow 3 ''b'' ''2'' 1 3]]
   \<and> set [primaryRow 1 ''a'' ''1'' 1, secondaryRow 2 ''a'' ''2'' 1 2, secondaryRow 3 ''b'' ''2'' 1 3]
       = component exampleContacts (secondaryRow 3 ''b'' ''2'' 1 3)
   \<and> set ` set (groupLinkableContacts (rev exampleContacts))
       = set ` set (groupLinkableContacts exampleContacts)"
proof -
  have h: "distinct (map contactId exampleContacts)" by code_simp
  have g: "groupLinkableContacts exampleContacts
       = [[primaryRow 1 ''a'' ''1'' 1, secondaryRow 2 ''a'' ''2'' 1 2, secondaryRow 3 ''b'' ''2'' 1 3]]"
    by code_simp
  note t = C8_groups_are_components_with_links [OF h]
  have gm: "[primaryRow 1 ''a'' ''1'' 1, secondaryRow 2 ''a'' ''2'' 1 2, secondaryRow 3 ''b'' ''2'' 1 3]
              \<in> set (groupLinkableContacts exampleContacts)"
    unfolding g by simp
  have am: "secondaryRow 3 ''b'' ''2'' 1 3
              \<in> set [primaryRow 1 ''a'' ''1'' 1, secondaryRow 2 ''a'' ''2'' 1 2, secondaryRow 3 ''b'' ''2'' 1 3]"
    by simp
  from t gm am
  have c: "set [primaryRow 1 ''a'' ''1'' 1, secondaryRow 2 ''a'' ''2'' 1 2, secondaryRow 3 ''b'' ''2'' 1 3]
       = component exampleContacts (secondaryRow 3 ''b'' ''2'' 1 3)"
    by blast
  from t have "mset (rev exampleContacts) = mset exampleContacts \<longrightarrow>
      set ` set (groupLinkableContacts (rev exampleContacts)) = set ` set (groupLinkableContacts exampleContacts)"
    by blast
  then have r: "set ` set (groupLinkableContacts (rev exampleContacts))
       = set ` set (groupLinkableContacts exampleContacts)" by simp
  from h g c r show ?thesis by blast
qed

text \<open>
  Claim C8 as stated fails on two contacts that share nothing: neither belongs to a group.
\<close>

theorem C8_unlinked_contacts_in_no_group:
  "groupLinkableContacts [primaryRow 1 ''a'' ''1'' 1, primaryRow 2 ''b'' ''2'' 2] = []"
  by code_simp


end
